theory Spec2Isabelle
  imports Complex_Main "HOL-Library.Log_Nat"
begin

section \<open>JavaScript numbers\<close>

text \<open>
  The settlement engine computes on JavaScript numbers, i.e. IEEE 754 binary64 values.
  A number is modelled by its exact rational value, or one of the two infinities, or NaN.
  Every arithmetic operation computes the exact rational result and rounds it to the
  nearest binary64 value (ties to even), overflowing to an infinity, as the hardware does.
  The sign of zero is not represented: no comparison of the program distinguishes the
  two zeros, and no emitted amount is a zero.
\<close>

datatype number = Fin rat | PInf | NInf | NaN

text \<open>\<open>expo x\<close> is the binary exponent of a non-zero rational: \<open>2^e \<le> |x| < 2^(e+1)\<close>.\<close>

definition expo :: "rat \<Rightarrow> int" where
  "expo x =
     (let a = \<bar>x\<bar>;
          k = (if 1 \<le> a then bitlen \<lfloor>a\<rfloor> - 1 else 1 - bitlen \<lfloor>1 / a\<rfloor>)
      in if 2 powi k \<le> a then k else k - 1)"

text \<open>Rounding a rational to the nearest integer, ties to the even neighbour.\<close>

definition round_even :: "rat \<Rightarrow> int" where
  "round_even r =
     (let f = \<lfloor>r\<rfloor>; d = r - of_int f
      in if d < 1 / 2 then f
         else if 1 / 2 < d then f + 1
         else if even f then f else f + 1)"

text \<open>
  The unit in the last place of the binade of \<open>x\<close>: 53 significant bits, and the
  smallest exponent of a normal number is \<open>-1022\<close> (below it, the subnormal spacing).
\<close>

definition ulp :: "rat \<Rightarrow> rat" where
  "ulp x = 2 powi (max (expo x) (- 1022) - 52)"

text \<open>Rounding to 53 significant bits, the exponent not yet bounded above.\<close>

definition rnd :: "rat \<Rightarrow> rat" where
  "rnd x = of_int (round_even (x / ulp x)) * ulp x"

text \<open>
  \<open>fl\<close> rounds an exact result to binary64: a rounded magnitude of \<open>2^1024\<close> or more
  is an infinity.
\<close>

definition fl :: "rat \<Rightarrow> number" where
  "fl x =
     (if x = 0 then Fin 0
      else let y = rnd x
           in if 2 ^ 1024 \<le> y then PInf
              else if y \<le> - (2 ^ 1024) then NInf
              else Fin y)"

text \<open>A numeric literal of the source denotes the binary64 value nearest to it.\<close>

definition lit :: "rat \<Rightarrow> number" where
  "lit q = fl q"

fun num_neg :: "number \<Rightarrow> number" where
  "num_neg (Fin x) = Fin (- x)"
| "num_neg PInf = NInf"
| "num_neg NInf = PInf"
| "num_neg NaN = NaN"

fun num_add :: "number \<Rightarrow> number \<Rightarrow> number" where
  "num_add (Fin x) (Fin y) = fl (x + y)"
| "num_add NaN b = NaN"
| "num_add a NaN = NaN"
| "num_add PInf NInf = NaN"
| "num_add NInf PInf = NaN"
| "num_add PInf b = PInf"
| "num_add a PInf = PInf"
| "num_add NInf b = NInf"
| "num_add a NInf = NInf"

definition num_sub :: "number \<Rightarrow> number \<Rightarrow> number" where
  "num_sub a b = num_add a (num_neg b)"

fun num_mul :: "number \<Rightarrow> number \<Rightarrow> number" where
  "num_mul (Fin x) (Fin y) = fl (x * y)"
| "num_mul NaN b = NaN"
| "num_mul a NaN = NaN"
| "num_mul (Fin x) PInf = (if x = 0 then NaN else if 0 < x then PInf else NInf)"
| "num_mul (Fin x) NInf = (if x = 0 then NaN else if 0 < x then NInf else PInf)"
| "num_mul PInf (Fin y) = (if y = 0 then NaN else if 0 < y then PInf else NInf)"
| "num_mul NInf (Fin y) = (if y = 0 then NaN else if 0 < y then NInf else PInf)"
| "num_mul PInf PInf = PInf"
| "num_mul NInf NInf = PInf"
| "num_mul PInf NInf = NInf"
| "num_mul NInf PInf = NInf"

text \<open>Division; a zero divisor is the positive zero (the program only divides by 100).\<close>

fun num_div :: "number \<Rightarrow> number \<Rightarrow> number" where
  "num_div (Fin x) (Fin y) =
     (if y = 0 then (if x = 0 then NaN else if 0 < x then PInf else NInf)
      else fl (x / y))"
| "num_div NaN b = NaN"
| "num_div a NaN = NaN"
| "num_div (Fin x) b = Fin 0"
| "num_div PInf (Fin y) = (if 0 \<le> y then PInf else NInf)"
| "num_div NInf (Fin y) = (if 0 \<le> y then NInf else PInf)"
| "num_div a b = NaN"

text \<open>The comparison \<open><\<close> of the language: false whenever an operand is NaN.\<close>

fun num_less :: "number \<Rightarrow> number \<Rightarrow> bool" where
  "num_less (Fin x) (Fin y) = (x < y)"
| "num_less NaN b = False"
| "num_less a NaN = False"
| "num_less a NInf = False"
| "num_less PInf b = False"
| "num_less NInf b = True"
| "num_less a PInf = True"

fun Math_abs :: "number \<Rightarrow> number" where
  "Math_abs (Fin x) = Fin \<bar>x\<bar>"
| "Math_abs PInf = PInf"
| "Math_abs NInf = PInf"
| "Math_abs NaN = NaN"

fun Math_min :: "number \<Rightarrow> number \<Rightarrow> number" where
  "Math_min NaN b = NaN"
| "Math_min a NaN = NaN"
| "Math_min a b = (if num_less b a then b else a)"

text \<open>
  \<open>Math.round\<close> returns the nearest integer, a tie going to the integer above. The
  nearest integer of a binary64 value is itself a binary64 value, so nothing is rounded
  a second time.
\<close>

fun Math_round :: "number \<Rightarrow> number" where
  "Math_round (Fin x) = Fin (of_int \<lfloor>x + 1 / 2\<rfloor>)"
| "Math_round a = a"

section \<open>The settlement engine\<close>

text \<open>
  The argument of \<open>simplifyDebts\<close> is an object used as a mapping; the function reads it
  once, through \<open>Object.entries\<close>. It is modelled by that sequence of entries, whose keys
  are pairwise distinct in every real input.
\<close>

type_synonym balances = "(string \<times> number) list"

record entry =
  person :: string
  amount :: number

record settlement =
  sfrom :: string
  sto :: string
  samount :: number
  currency :: string

text \<open>Step 1 of the source: the \<open>for ... of\<close> loop that fills the two working arrays.\<close>

fun separate :: "balances \<Rightarrow> entry list \<Rightarrow> entry list \<Rightarrow> entry list \<times> entry list" where
  "separate [] debtors creditors = (debtors, creditors)"
| "separate ((p, a) # rest) debtors creditors =
     (let debtors' = (if num_less a (num_neg (lit (1 / 100)))
                      then debtors @ [\<lparr>person = p, amount = a\<rparr>] else debtors);
          creditors' = (if num_less (lit (1 / 100)) a
                        then creditors @ [\<lparr>person = p, amount = a\<rparr>] else creditors)
      in separate rest debtors' creditors')"

text \<open>
  Step 2: \<open>Array.prototype.sort\<close> with a comparator. The sort is stable; an element stays
  in front of a later one unless the comparator returns a number greater than zero.
\<close>

fun insort_cmp :: "('a \<Rightarrow> 'a \<Rightarrow> number) \<Rightarrow> 'a \<Rightarrow> 'a list \<Rightarrow> 'a list" where
  "insort_cmp cmp x [] = [x]"
| "insort_cmp cmp x (y # ys) =
     (if num_less (Fin 0) (cmp x y) then y # insort_cmp cmp x ys else x # y # ys)"

definition sort_cmp :: "('a \<Rightarrow> 'a \<Rightarrow> number) \<Rightarrow> 'a list \<Rightarrow> 'a list" where
  "sort_cmp cmp xs = foldr (insort_cmp cmp) xs []"

definition cmp_debtors :: "entry \<Rightarrow> entry \<Rightarrow> number" where
  "cmp_debtors a b = num_sub (amount a) (amount b)"

definition cmp_creditors :: "entry \<Rightarrow> entry \<Rightarrow> number" where
  "cmp_creditors a b = num_sub (amount b) (amount a)"

text \<open>Step 3: the state of the matching loop, and one pass through its body.\<close>

record loop_state =
  debtors :: "entry list"
  creditors :: "entry list"
  cur_i :: nat
  cur_j :: nat
  settlements :: "settlement list"

text \<open>\<open>Math.round(amount * 100) / 100\<close>: the amount rounded to two decimals.\<close>

definition round2 :: "number \<Rightarrow> number" where
  "round2 a = num_div (Math_round (num_mul a (lit 100))) (lit 100)"

definition transfer :: "entry \<Rightarrow> entry \<Rightarrow> number" where
  "transfer debtor creditor =
     round2 (Math_min (Math_abs (amount debtor)) (amount creditor))"

definition loop_cond :: "loop_state \<Rightarrow> bool" where
  "loop_cond s \<longleftrightarrow> cur_i s < length (debtors s) \<and> cur_j s < length (creditors s)"

definition loop_body :: "loop_state \<Rightarrow> loop_state" where
  "loop_body s =
     (let debtor = debtors s ! cur_i s;
          creditor = creditors s ! cur_j s;
          amt = transfer debtor creditor;
          debtor' = debtor\<lparr>amount := num_add (amount debtor) amt\<rparr>;
          creditor' = creditor\<lparr>amount := num_sub (amount creditor) amt\<rparr>
      in \<lparr>debtors = (debtors s)[cur_i s := debtor'],
          creditors = (creditors s)[cur_j s := creditor'],
          cur_i = (if num_less (Math_abs (amount debtor')) (lit (1 / 100))
                   then cur_i s + 1 else cur_i s),
          cur_j = (if num_less (amount creditor') (lit (1 / 100))
                   then cur_j s + 1 else cur_j s),
          settlements = settlements s @
            [\<lparr>sfrom = person debtor, sto = person creditor, samount = amt,
              currency = ''USD''\<rparr>]\<rparr>)"

text \<open>The \<open>while\<close> loop; \<open>None\<close> stands for a run that never leaves it.\<close>

partial_function (option) match_loop :: "loop_state \<Rightarrow> loop_state option" where
  "match_loop s = (if loop_cond s then match_loop (loop_body s) else Some s)"

declare match_loop.simps [code]

definition initial_state :: "balances \<Rightarrow> loop_state" where
  "initial_state bal =
     (let (ds, cs) = separate bal [] []
      in \<lparr>debtors = sort_cmp cmp_debtors ds,
          creditors = sort_cmp cmp_creditors cs,
          cur_i = 0, cur_j = 0, settlements = []\<rparr>)"

definition simplifyDebts :: "balances \<Rightarrow> settlement list option" where
  "simplifyDebts bal = map_option settlements (match_loop (initial_state bal))"

section \<open>The settlement engine over a store of objects\<close>

text \<open>
  The source mutates objects in place (\<open>debtor.amount += amount\<close>). To state what the
  call does to the objects of its caller, the same function is given a second time with
  the store made explicit; it is shown below to return the settlements of \<open>simplifyDebts\<close>.
\<close>

text \<open>
  An object of the store is either a mapping (such as the caller's \<open>balances\<close>, with
  its entries in the order of \<open>Object.entries\<close>) or an object \<open>{person, amount}\<close>
  made by the engine. An address is an index into the store; a new object is put behind
  the last one.
\<close>

datatype obj = Mapping balances | Working entry

type_synonym store = "obj list"

text \<open>
  Reading through a reference. The engine reads entries only from the mapping it is given
  and amounts only from the objects it made, so the other cases are never met.
\<close>

definition entries_at :: "store \<Rightarrow> nat \<Rightarrow> balances" where
  "entries_at h b = (case h ! b of Mapping es \<Rightarrow> es | Working e \<Rightarrow> [])"

definition entry_at :: "store \<Rightarrow> nat \<Rightarrow> entry" where
  "entry_at h a = (case h ! a of Working e \<Rightarrow> e | Mapping es \<Rightarrow> \<lparr>person = [], amount = NaN\<rparr>)"

text \<open>The assignment \<open>o.amount = v\<close>.\<close>

definition set_amount :: "store \<Rightarrow> nat \<Rightarrow> number \<Rightarrow> store" where
  "set_amount h a v = h[a := Working ((entry_at h a)\<lparr>amount := v\<rparr>)]"

text \<open>Step 1: each \<open>push({person, amount})\<close> allocates an object and stores its address.\<close>

fun separate_st :: "balances \<Rightarrow> store \<Rightarrow> nat list \<Rightarrow> nat list \<Rightarrow> store \<times> nat list \<times> nat list" where
  "separate_st [] h ds cs = (h, ds, cs)"
| "separate_st ((p, a) # rest) h ds cs =
     (let (h1, ds') =
            (if num_less a (num_neg (lit (1 / 100)))
             then (h @ [Working \<lparr>person = p, amount = a\<rparr>], ds @ [length h])
             else (h, ds));
          (h2, cs') =
            (if num_less (lit (1 / 100)) a
             then (h1 @ [Working \<lparr>person = p, amount = a\<rparr>], cs @ [length h1])
             else (h1, cs))
      in separate_st rest h2 ds' cs')"

text \<open>Steps 2 and 3 on arrays of addresses; every read and write goes through the store.\<close>

record st_state =
  heap :: store
  debtor_refs :: "nat list"
  creditor_refs :: "nat list"
  st_i :: nat
  st_j :: nat
  st_settlements :: "settlement list"

definition st_cond :: "st_state \<Rightarrow> bool" where
  "st_cond s \<longleftrightarrow> st_i s < length (debtor_refs s) \<and> st_j s < length (creditor_refs s)"

definition st_body :: "st_state \<Rightarrow> st_state" where
  "st_body s =
     (let debtor = debtor_refs s ! st_i s;
          creditor = creditor_refs s ! st_j s;
          amt = transfer (entry_at (heap s) debtor) (entry_at (heap s) creditor);
          h1 = set_amount (heap s) debtor (num_add (amount (entry_at (heap s) debtor)) amt);
          h2 = set_amount h1 creditor (num_sub (amount (entry_at h1 creditor)) amt)
      in \<lparr>heap = h2,
          debtor_refs = debtor_refs s,
          creditor_refs = creditor_refs s,
          st_i = (if num_less (Math_abs (amount (entry_at h2 debtor))) (lit (1 / 100))
                  then st_i s + 1 else st_i s),
          st_j = (if num_less (amount (entry_at h2 creditor)) (lit (1 / 100))
                  then st_j s + 1 else st_j s),
          st_settlements = st_settlements s @
            [\<lparr>sfrom = person (entry_at (heap s) debtor),
              sto = person (entry_at (heap s) creditor), samount = amt,
              currency = ''USD''\<rparr>]\<rparr>)"

partial_function (option) st_loop :: "st_state \<Rightarrow> st_state option" where
  "st_loop s = (if st_cond s then st_loop (st_body s) else Some s)"

declare st_loop.simps [code]

definition st_initial :: "nat \<Rightarrow> store \<Rightarrow> st_state" where
  "st_initial b h =
     (let (h', ds, cs) = separate_st (entries_at h b) h [] []
      in \<lparr>heap = h',
          debtor_refs = sort_cmp (\<lambda>x y. num_sub (amount (entry_at h' x)) (amount (entry_at h' y))) ds,
          creditor_refs = sort_cmp (\<lambda>x y. num_sub (amount (entry_at h' y)) (amount (entry_at h' x))) cs,
          st_i = 0, st_j = 0, st_settlements = []\<rparr>)"

text \<open>The call \<open>simplifyDebts(balances)\<close>, given the address of the argument: its result and the store it leaves.\<close>

definition simplifyDebts_st :: "nat \<Rightarrow> store \<Rightarrow> (settlement list \<times> store) option" where
  "simplifyDebts_st b h =
     map_option (\<lambda>s. (st_settlements s, heap s)) (st_loop (st_initial b h))"

section \<open>Vocabulary of the properties\<close>

text \<open>The object pushed by the first loop for an entry of the mapping.\<close>

definition mk_entry :: "string \<times> number \<Rightarrow> entry" where
  "mk_entry pa = \<lparr>person = fst pa, amount = snd pa\<rparr>"

definition is_debtor :: "string \<times> number \<Rightarrow> bool" where
  "is_debtor pa \<longleftrightarrow> num_less (snd pa) (num_neg (lit (1 / 100)))"

definition is_creditor :: "string \<times> number \<Rightarrow> bool" where
  "is_creditor pa \<longleftrightarrow> num_less (lit (1 / 100)) (snd pa)"

text \<open>A balance within epsilon of zero: a finite number of magnitude at most \<open>0.01\<close>.\<close>

definition within_epsilon :: "number \<Rightarrow> bool" where
  "within_epsilon a =
     (case a of Fin x \<Rightarrow> \<not> num_less (lit (1 / 100)) (Math_abs (Fin x)) | _ \<Rightarrow> False)"

text \<open>The largest finite binary64 value.\<close>

definition dbl_max :: rat where
  "dbl_max = (2 ^ 53 - 1) * 2 ^ 971"

text \<open>Bounds on a number that may be infinite.\<close>

definition above :: "rat \<Rightarrow> number \<Rightarrow> bool" where
  "above q a = (case a of Fin y \<Rightarrow> q \<le> y | PInf \<Rightarrow> True | _ \<Rightarrow> False)"

definition below :: "rat \<Rightarrow> number \<Rightarrow> bool" where
  "below q a = (case a of Fin y \<Rightarrow> y \<le> q | NInf \<Rightarrow> True | _ \<Rightarrow> False)"

text \<open>The value of the literal \<open>0.01\<close>, the epsilon of the program.\<close>

definition cent :: rat where
  "cent = 5764607523034235 / 576460752303423488"

text \<open>The quantities of one pass of the loop body.\<close>

definition cur_debtor :: "loop_state \<Rightarrow> entry" where
  "cur_debtor s = debtors s ! cur_i s"

definition cur_creditor :: "loop_state \<Rightarrow> entry" where
  "cur_creditor s = creditors s ! cur_j s"

definition cur_transfer :: "loop_state \<Rightarrow> number" where
  "cur_transfer s = transfer (cur_debtor s) (cur_creditor s)"

definition new_debt :: "loop_state \<Rightarrow> number" where
  "new_debt s = num_add (amount (cur_debtor s)) (cur_transfer s)"

definition new_credit :: "loop_state \<Rightarrow> number" where
  "new_credit s = num_sub (amount (cur_creditor s)) (cur_transfer s)"

text \<open>A property of the amounts at and after the two cursors.\<close>

definition cursors_ok :: "(number \<Rightarrow> bool) \<Rightarrow> (number \<Rightarrow> bool) \<Rightarrow> loop_state \<Rightarrow> bool" where
  "cursors_ok PD PC s \<longleftrightarrow>
     (\<forall>k. cur_i s \<le> k \<and> k < length (debtors s) \<longrightarrow> PD (amount (debtors s ! k))) \<and>
     (\<forall>k. cur_j s \<le> k \<and> k < length (creditors s) \<longrightarrow> PC (amount (creditors s ! k)))"

text \<open>
  The amounts the loop can meet at its cursors when the input is finite: a debtor not yet
  settled, a creditor not yet settled.
\<close>

definition live_debt :: "number \<Rightarrow> bool" where
  "live_debt a = (case a of Fin x \<Rightarrow> cent \<le> \<bar>x\<bar> \<and> - dbl_max \<le> x | PInf \<Rightarrow> True | _ \<Rightarrow> False)"

definition live_credit :: "number \<Rightarrow> bool" where
  "live_credit a = (case a of Fin x \<Rightarrow> cent \<le> x \<and> x \<le> dbl_max | _ \<Rightarrow> False)"

text \<open>A finite number: a value in the range of binary64.\<close>

definition finite_number :: "number \<Rightarrow> bool" where
  "finite_number a = (case a of Fin x \<Rightarrow> \<bar>x\<bar> \<le> dbl_max | _ \<Rightarrow> False)"

text \<open>
  Amounts of moderate size, at most \<open>2^43\<close> (about 8.8e12) in magnitude: for these the
  rounding error of every operation of the loop body stays below a third of a cent.
\<close>

definition small_debt :: "number \<Rightarrow> bool" where
  "small_debt a = (case a of Fin x \<Rightarrow> - (2 ^ 43) \<le> x \<and> x \<le> - cent | _ \<Rightarrow> False)"

definition small_credit :: "number \<Rightarrow> bool" where
  "small_credit a = (case a of Fin x \<Rightarrow> cent \<le> x \<and> x \<le> 2 ^ 43 | _ \<Rightarrow> False)"

definition bounded_number :: "number \<Rightarrow> bool" where
  "bounded_number a = (case a of Fin x \<Rightarrow> \<bar>x\<bar> \<le> 2 ^ 43 | _ \<Rightarrow> False)"

text \<open>A bound on the passes the loop can still make when every pass advances a cursor.\<close>

definition passes_left :: "loop_state \<Rightarrow> nat" where
  "passes_left s =
     (if loop_cond s
      then (length (debtors s) - cur_i s) + (length (creditors s) - cur_j s) - 1 else 0)"

text \<open>
  Applying a settlement to a copy of the balances: the payer's balance rises by the amount
  (the debt shrinks), the payee's balance falls by it.
\<close>

definition apply_settlement :: "balances \<Rightarrow> settlement \<Rightarrow> balances" where
  "apply_settlement bal x =
     map (\<lambda>pa. (fst pa,
        (let a = (if fst pa = sfrom x then num_add (snd pa) (samount x) else snd pa)
         in if fst pa = sto x then num_sub a (samount x) else a))) bal"

definition apply_settlements :: "balances \<Rightarrow> settlement list \<Rightarrow> balances" where
  "apply_settlements bal ss = foldl apply_settlement bal ss"

text \<open>
  The working amounts of the loop are the balances of the copy after the settlements
  emitted so far; the entries behind the cursors are settled.
\<close>

definition tracks :: "balances \<Rightarrow> loop_state \<Rightarrow> bool" where
  "tracks bal s \<longleftrightarrow>
     distinct (map person (debtors s) @ map person (creditors s)) \<and>
     (\<forall>k < length (debtors s).
        map_of (apply_settlements bal (settlements s)) (person (debtors s ! k)) =
          Some (amount (debtors s ! k))) \<and>
     (\<forall>k < length (creditors s).
        map_of (apply_settlements bal (settlements s)) (person (creditors s ! k)) =
          Some (amount (creditors s ! k))) \<and>
     cur_i s \<le> length (debtors s) \<and> cur_j s \<le> length (creditors s) \<and>
     (\<forall>k < cur_i s. num_less (Math_abs (amount (debtors s ! k))) (lit (1 / 100))) \<and>
     (\<forall>k < cur_j s. num_less (amount (creditors s ! k)) (lit (1 / 100)))"

definition tracks_all :: "balances \<Rightarrow> loop_state \<Rightarrow> bool" where
  "tracks_all bal s \<longleftrightarrow> tracks bal s \<and>
     map person (debtors s) = map person (debtors (initial_state bal)) \<and>
     map person (creditors s) = map person (creditors (initial_state bal))"

text \<open>What the loop achieves for one side of the partition.\<close>

definition settled_debtors :: "balances \<Rightarrow> settlement list \<Rightarrow> bool" where
  "settled_debtors bal ss \<longleftrightarrow>
     (\<forall>pa \<in> set bal. is_debtor pa \<longrightarrow>
        (case map_of (apply_settlements bal ss) (fst pa) of
           Some a \<Rightarrow> num_less (Math_abs a) (lit (1 / 100)) | None \<Rightarrow> False))"

definition settled_creditors :: "balances \<Rightarrow> settlement list \<Rightarrow> bool" where
  "settled_creditors bal ss \<longleftrightarrow>
     (\<forall>pa \<in> set bal. is_creditor pa \<longrightarrow>
        (case map_of (apply_settlements bal ss) (fst pa) of
           Some a \<Rightarrow> num_less (Math_abs a) (lit (1 / 100)) | None \<Rightarrow> False))"

text \<open>
  The exact value of a finite number (the properties use it on finite numbers only), and
  the exact sum of the balances of a mapping.
\<close>

definition value_of :: "number \<Rightarrow> rat" where
  "value_of a = (case a of Fin x \<Rightarrow> x | _ \<Rightarrow> 0)"

definition balance_sum :: "balances \<Rightarrow> rat" where
  "balance_sum bal = sum_list (map (\<lambda>pa. value_of (snd pa)) bal)"

text \<open>
  How far from zero a balance can be left: the magnitude of the sum of the input balances,
  plus \<open>0.012\<close> for each participant (the epsilon that the partition or the loop can leave
  with each of them, and the rounding of the additions).
\<close>

definition residual_bound :: "balances \<Rightarrow> rat" where
  "residual_bound bal = \<bar>balance_sum bal\<bar> + of_nat (length bal) * (3 / 250)"

text \<open>A finite number of magnitude at most \<open>r\<close>; every balance of the copy is one.\<close>

definition near_zero :: "rat \<Rightarrow> number \<Rightarrow> bool" where
  "near_zero r a = (case a of Fin x \<Rightarrow> \<bar>x\<bar> \<le> r | _ \<Rightarrow> False)"

definition residuals_within :: "rat \<Rightarrow> balances \<Rightarrow> settlement list \<Rightarrow> bool" where
  "residuals_within r bal ss \<longleftrightarrow>
     (\<forall>pa \<in> set bal.
        (case map_of (apply_settlements bal ss) (fst pa) of
           Some a \<Rightarrow> near_zero r a | None \<Rightarrow> False))"

text \<open>
  The exact sum of the working amounts. A pass of the loop changes it by the rounding of one
  addition and one subtraction; a creditor behind the cursor is within the epsilon on both
  sides of zero.
\<close>

definition work_sum :: "loop_state \<Rightarrow> rat" where
  "work_sum s = sum_list (map (\<lambda>e. value_of (amount e)) (debtors s)) +
     sum_list (map (\<lambda>e. value_of (amount e)) (creditors s))"

definition conserving :: "rat \<Rightarrow> loop_state \<Rightarrow> bool" where
  "conserving T s \<longleftrightarrow>
     (\<forall>k < cur_j s. num_less (Math_abs (amount (creditors s ! k))) (lit (1 / 100))) \<and>
     \<bar>work_sum s - T\<bar> \<le> of_nat (length (settlements s)) / 2 ^ 9"

text \<open>The objects that existed before the call are untouched; the working references are new.\<close>

definition framed :: "store \<Rightarrow> st_state \<Rightarrow> bool" where
  "framed h0 s \<longleftrightarrow> take (length h0) (heap s) = h0 \<and>
     (\<forall>a \<in> set (debtor_refs s) \<union> set (creditor_refs s). length h0 \<le> a)"

text \<open>The loop state that a state over the store stands for.\<close>

definition abs_state :: "st_state \<Rightarrow> loop_state" where
  "abs_state s =
     \<lparr>debtors = map (entry_at (heap s)) (debtor_refs s),
      creditors = map (entry_at (heap s)) (creditor_refs s),
      cur_i = st_i s, cur_j = st_j s, settlements = st_settlements s\<rparr>"

text \<open>The references of the two arrays are distinct and point to engine-made objects.\<close>

definition is_working :: "store \<Rightarrow> nat \<Rightarrow> bool" where
  "is_working h a \<longleftrightarrow> a < length h \<and> (case h ! a of Working e \<Rightarrow> True | Mapping es \<Rightarrow> False)"

definition wf_refs :: "st_state \<Rightarrow> bool" where
  "wf_refs s \<longleftrightarrow> distinct (debtor_refs s @ creditor_refs s) \<and>
     (\<forall>a \<in> set (debtor_refs s) \<union> set (creditor_refs s). is_working (heap s) a)"

text \<open>
  The amounts the loop meets at its cursors when the input consists of binary64 values:
  besides being unsettled, they are binary64 values themselves (fixed points of the rounding).
\<close>

definition dbl_debt :: "number \<Rightarrow> bool" where
  "dbl_debt a =
     (case a of Fin x \<Rightarrow> cent \<le> \<bar>x\<bar> \<and> rnd x = x \<and> - dbl_max \<le> x | PInf \<Rightarrow> True | _ \<Rightarrow> False)"

definition dbl_credit :: "number \<Rightarrow> bool" where
  "dbl_credit a = (case a of Fin x \<Rightarrow> cent \<le> x \<and> rnd x = x \<and> x \<le> dbl_max | _ \<Rightarrow> False)"

text \<open>A finite binary64 value: what a finite number of the language is.\<close>

definition finite_double :: "number \<Rightarrow> bool" where
  "finite_double a = (case a of Fin x \<Rightarrow> rnd x = x \<and> \<bar>x\<bar> \<le> dbl_max | _ \<Rightarrow> False)"

text \<open>
  What decreases in a pass that advances neither cursor: a debtor amount never returns
  from positive to negative, and within one sign the amounts shrink (or, for a debtor
  pushed above zero, grow towards the creditor) by a constant factor.
\<close>

definition debtor_phase :: "number \<Rightarrow> nat" where
  "debtor_phase d = (case d of Fin x \<Rightarrow> if x < 0 then 1 else 0 | _ \<Rightarrow> 0)"

definition stall_measure :: "number \<Rightarrow> number \<Rightarrow> nat" where
  "stall_measure d c =
     (case c of
        Fin y \<Rightarrow>
          (case d of
             Fin x \<Rightarrow>
               if x < 0 then nat \<lfloor>4 * (- x) / cent\<rfloor> + nat \<lfloor>4 * y / cent\<rfloor>
               else nat \<lfloor>4 * y / cent\<rfloor> + (if x < y then nat \<lfloor>4 * y / x\<rfloor> else 0)
           | _ \<Rightarrow> nat \<lfloor>4 * y / cent\<rfloor>)
      | _ \<Rightarrow> 0)"

text \<open>The order in which every pass of the loop body descends.\<close>

definition cursors_left :: "loop_state \<Rightarrow> nat" where
  "cursors_left s = (length (debtors s) - cur_i s) + (length (creditors s) - cur_j s)"

definition progress :: "(loop_state \<times> loop_state) set" where
  "progress = inv_image (less_than <*lex*> less_than <*lex*> less_than)
     (\<lambda>s. (cursors_left s, debtor_phase (amount (cur_debtor s)),
            stall_measure (amount (cur_debtor s)) (amount (cur_creditor s))))"

text \<open>Payers come from one set of persons, payees from another.\<close>

definition payers_payees :: "string set \<Rightarrow> string set \<Rightarrow> loop_state \<Rightarrow> bool" where
  "payers_payees D C s \<longleftrightarrow>
     set (map person (debtors s)) \<subseteq> D \<and> set (map person (creditors s)) \<subseteq> C \<and>
     (\<forall>x \<in> set (settlements s). sfrom x \<in> D \<and> sto x \<in> C)"

section \<open>Evaluating numbers\<close>

lemma floor_rat_numeral_div: "\<lfloor>numeral a / numeral b :: rat\<rfloor> = numeral a div numeral b"
  by (metis floor_divide_of_int_eq of_int_numeral)

lemma floor_rat_one_div: "\<lfloor>1 / numeral b :: rat\<rfloor> = 1 div numeral b"
  by (metis floor_divide_of_int_eq of_int_1 of_int_numeral)

lemma floor_rat_neg_numeral_div:
  "\<lfloor>- (numeral a / numeral b) :: rat\<rfloor> = - numeral a div numeral b"
  by (metis divide_minus_left floor_divide_of_int_eq of_int_neg_numeral of_int_numeral)

lemmas num_eval = fl_def rnd_def ulp_def expo_def round_even_def compute_bitlen Let_def lit_def
  floor_rat_numeral_div floor_rat_one_div floor_rat_neg_numeral_div

lemmas loop_eval = simplifyDebts_def initial_state_def sort_cmp_def cmp_debtors_def
  cmp_creditors_def loop_cond_def loop_body_def transfer_def round2_def num_sub_def
  match_loop.simps

text \<open>The two literals of the program: \<open>0.01\<close> is not a binary fraction, \<open>100\<close> is.\<close>

lemma lit_cent: "lit (1 / 100) = Fin cent"
  by (simp add: num_eval cent_def)

lemma lit_hundred: "lit 100 = Fin 100"
  by (simp add: num_eval)

section \<open>Concrete scenarios\<close>

text \<open>
  C7. For the input \<open>{A: -30, B: 10, C: 20}\<close> the engine returns exactly two settlements,
  A pays C 20 and then A pays B 10: the largest creditor is matched first.
\<close>

theorem simplifyDebts_scenario_one:
  "simplifyDebts [(''A'', Fin (- 30)), (''B'', Fin 10), (''C'', Fin 20)] =
     Some [\<lparr>sfrom = ''A'', sto = ''C'', samount = Fin 20, currency = ''USD''\<rparr>,
           \<lparr>sfrom = ''A'', sto = ''B'', samount = Fin 10, currency = ''USD''\<rparr>]"
  by (simp add: loop_eval num_eval)

section \<open>Properties of rounding\<close>

lemma bitlen_bounds_rat:
  assumes "0 < n"
  shows "(2::rat) powi (bitlen n - 1) \<le> of_int n" and "(of_int n :: rat) + 1 \<le> 2 powi bitlen n"
proof -
  from bitlen_bounds [OF assms] have lo: "2 ^ nat (bitlen n - 1) \<le> n" and hi: "n < 2 ^ nat (bitlen n)"
    by simp_all
  have b1: "1 \<le> bitlen n"
    using assms by (simp add: bitlen_alt_def)
  have "(of_int (2 ^ nat (bitlen n - 1)) :: rat) \<le> of_int n"
    using lo by (simp only: of_int_le_iff)
  then show "(2::rat) powi (bitlen n - 1) \<le> of_int n"
    using b1 by (simp add: power_int_nonneg_exp)
  from hi have "n + 1 \<le> 2 ^ nat (bitlen n)" by simp
  then have "(of_int (n + 1) :: rat) \<le> of_int (2 ^ nat (bitlen n))"
    by (simp only: of_int_le_iff)
  then show "(of_int n :: rat) + 1 \<le> 2 powi bitlen n"
    using b1 by (simp add: power_int_nonneg_exp)
qed

lemma powi_two_step: "(2::rat) powi (k + 1) = 2 * 2 powi k"
  by (simp add: power_int_add)

lemma expo_bounds:
  assumes "x \<noteq> 0"
  shows "2 powi expo x \<le> \<bar>x\<bar>" and "\<bar>x\<bar> < 2 powi (expo x + 1)"
proof -
  define a where "a = \<bar>x\<bar>"
  define k where "k = (if 1 \<le> a then bitlen \<lfloor>a\<rfloor> - 1 else 1 - bitlen \<lfloor>1 / a\<rfloor>)"
  have e: "expo x = (if 2 powi k \<le> a then k else k - 1)"
    unfolding expo_def Let_def a_def k_def ..
  have a: "0 < a" using assms by (simp add: a_def)
  have up: "a < 2 * 2 powi k" and dn: "2 powi (k - 1) \<le> a"
  proof -
    have "a < 2 * 2 powi k \<and> 2 powi (k - 1) \<le> a"
    proof (cases "1 \<le> a")
      case True
      define n where "n = \<lfloor>a\<rfloor>"
      have n: "0 < n" using True by (simp add: n_def)
      have kn: "k = bitlen n - 1" using True by (simp add: k_def n_def)
      have na: "of_int n \<le> a" "a < of_int n + 1"
        using floor_correct [of a] by (simp_all add: n_def)
      from bitlen_bounds_rat [OF n] na
      have lo: "2 powi (bitlen n - 1) \<le> a" and hi: "a < 2 powi bitlen n"
        by linarith+
      have "(2::rat) powi bitlen n = 2 * 2 powi k"
        using powi_two_step [of k] by (simp add: kn)
      moreover have "(2::rat) powi (k - 1) \<le> 2 powi k"
        by (intro power_int_increasing) simp_all
      ultimately show ?thesis using lo hi by (simp add: kn)
    next
      case False
      define n where "n = \<lfloor>1 / a\<rfloor>"
      have "1 \<le> 1 / a" using False a by simp
      then have n: "0 < n" by (simp add: n_def)
      have kn: "k = 1 - bitlen n" using False by (simp add: k_def n_def)
      have na: "of_int n \<le> 1 / a" "1 / a < of_int n + 1"
        using floor_correct [of "1 / a"] by (simp_all add: n_def)
      from bitlen_bounds_rat [OF n] na
      have lo: "2 powi (bitlen n - 1) \<le> 1 / a" and hi: "1 / a < 2 powi bitlen n"
        by linarith+
      have p1: "(2::rat) powi (bitlen n - 1) = 1 / 2 powi k"
        using power_int_minus_divide [of "2::rat" k] by (simp add: kn)
      have p2: "(2::rat) powi bitlen n = 1 / 2 powi (k - 1)"
        using power_int_minus_divide [of "2::rat" "k - 1"] by (simp add: kn)
      have pk: "(0::rat) < 2 powi k" "(0::rat) < 2 powi (k - 1)" by simp_all
      have "a \<le> 2 powi k"
        using lo a pk(1) unfolding p1 by (simp add: field_simps)
      moreover have "2 powi (k - 1) < a"
        using hi a pk(2) unfolding p2 by (simp add: field_simps)
      ultimately show ?thesis using pk(1) by linarith
    qed
    then show "a < 2 * 2 powi k" and "2 powi (k - 1) \<le> a" by simp_all
  qed
  have "2 powi expo x \<le> a \<and> a < 2 powi (expo x + 1)"
  proof (cases "2 powi k \<le> a")
    case True
    with up show ?thesis by (simp add: e powi_two_step)
  next
    case False
    with dn show ?thesis by (simp add: e)
  qed
  then show "2 powi expo x \<le> \<bar>x\<bar>" and "\<bar>x\<bar> < 2 powi (expo x + 1)"
    by (simp_all add: a_def)
qed

lemma expo_unique:
  assumes "2 powi e \<le> \<bar>x\<bar>" "\<bar>x\<bar> < 2 powi (e + 1)"
  shows "expo x = e"
proof -
  have x: "x \<noteq> 0"
  proof
    assume "x = 0"
    with assms(1) have "2 powi e \<le> (0::rat)" by simp
    moreover have "(0::rat) < 2 powi e" by simp
    ultimately show False by linarith
  qed
  note b = expo_bounds [OF x]
  have lt: "m < n" if "(2::rat) powi m < 2 powi n" for m n :: int
  proof (rule ccontr)
    assume "\<not> m < n"
    then have "(2::rat) powi n \<le> 2 powi m"
      by (intro power_int_increasing) simp_all
    with that show False by simp
  qed
  have "(2::rat) powi e < 2 powi (expo x + 1)"
    using assms(1) b(2) by simp
  then have "e < expo x + 1" by (rule lt)
  moreover have "(2::rat) powi expo x < 2 powi (e + 1)"
    using assms(2) b(1) by simp
  then have "expo x < e + 1" by (rule lt)
  ultimately show ?thesis by simp
qed

lemma round_even_near: "\<bar>of_int (round_even r) - r\<bar> \<le> 1 / 2"
  unfolding round_even_def Let_def by (auto simp: abs_if) linarith+

lemma round_even_ge:
  assumes "of_int n \<le> r"
  shows "n \<le> round_even r"
proof -
  have "n \<le> \<lfloor>r\<rfloor>" using assms by (simp add: le_floor_iff)
  then show ?thesis unfolding round_even_def Let_def by auto
qed

lemma round_even_le: "r \<le> of_int n \<Longrightarrow> round_even r \<le> n"
  unfolding round_even_def Let_def
  by (auto simp: floor_le_iff)

lemma round_even_of_int: "round_even (of_int n) = n"
  unfolding round_even_def Let_def by simp

lemma round_even_minus: "round_even (- r) = - round_even r"
proof (cases "r = of_int \<lfloor>r\<rfloor>")
  case True
  then obtain n where r: "r = of_int n" ..
  have "round_even (of_int (- n)) = - n" by (rule round_even_of_int)
  then show ?thesis by (simp add: r round_even_of_int)
next
  case False
  define f where "f = \<lfloor>r\<rfloor>"
  define d where "d = r - of_int f"
  have fl: "\<lfloor>- r\<rfloor> = - f - 1"
    using False by (simp add: floor_minus ceiling_altdef f_def)
  have d': "- r - of_int (- f - 1) = 1 - d"
    by (simp add: d_def)
  have lhs: "round_even (- r) =
    (if 1 - d < 1 / 2 then - f - 1 else if 1 / 2 < 1 - d then - f
     else if even (- f - 1) then - f - 1 else - f)"
    unfolding round_even_def Let_def fl d' by simp
  have rhs: "round_even r =
    (if d < 1 / 2 then f else if 1 / 2 < d then f + 1 else if even f then f else f + 1)"
    unfolding round_even_def Let_def f_def d_def by simp
  consider "d < 1 / 2" | "1 / 2 < d" | "d = 1 / 2" by linarith
  then show ?thesis
  proof cases
    case 1
    then show ?thesis unfolding lhs rhs by simp
  next
    case 2
    then show ?thesis unfolding lhs rhs by simp
  next
    case 3
    then show ?thesis unfolding lhs rhs by simp
  qed
qed

lemma powi_two_less: "m < n" if "(2::rat) powi m < 2 powi n" for m n :: int
proof (rule ccontr)
  assume "\<not> m < n"
  then have "(2::rat) powi n \<le> 2 powi m"
    by (intro power_int_increasing) simp_all
  with that show False by simp
qed

lemma powi_two_mono: "m \<le> n \<Longrightarrow> (2::rat) powi m \<le> 2 powi n"
  by (intro power_int_increasing) simp_all

lemma expo_le:
  assumes "x \<noteq> 0" "\<bar>x\<bar> \<le> 2 powi k"
  shows "expo x \<le> k"
proof -
  have pos: "(0::rat) < 2 powi k" by simp
  have "(2::rat) powi expo x < 2 * 2 powi k"
    using expo_bounds(1) [OF assms(1)] assms(2) pos by linarith
  then have "(2::rat) powi expo x < 2 powi (k + 1)"
    by (simp only: powi_two_step)
  then have "expo x < k + 1" by (rule powi_two_less)
  then show ?thesis by simp
qed

lemma expo_less:
  assumes "x \<noteq> 0" "\<bar>x\<bar> < 2 powi k"
  shows "expo x < k"
proof -
  have "(2::rat) powi expo x < 2 powi k"
    using expo_bounds(1) [OF assms(1)] assms(2) by simp
  then show ?thesis by (rule powi_two_less)
qed

lemma expo_ge:
  assumes "2 powi k \<le> \<bar>x\<bar>"
  shows "k \<le> expo x"
proof -
  have x: "x \<noteq> 0"
  proof
    assume "x = 0"
    with assms have "2 powi k \<le> (0::rat)" by simp
    moreover have "(0::rat) < 2 powi k" by simp
    ultimately show False by linarith
  qed
  have "(2::rat) powi k < 2 powi (expo x + 1)"
    using expo_bounds(2) [OF x] assms by simp
  then have "k < expo x + 1" by (rule powi_two_less)
  then show ?thesis by simp
qed

lemma ulp_pos: "0 < ulp x"
  by (simp add: ulp_def)

lemma rnd_near: "\<bar>rnd x - x\<bar> \<le> ulp x / 2"
proof -
  have "rnd x - x = (of_int (round_even (x / ulp x)) - x / ulp x) * ulp x"
    using ulp_pos [of x] by (simp add: rnd_def field_simps)
  then have "\<bar>rnd x - x\<bar> = \<bar>of_int (round_even (x / ulp x)) - x / ulp x\<bar> * ulp x"
    using ulp_pos [of x] by (simp add: abs_mult)
  also have "\<dots> \<le> 1 / 2 * ulp x"
    using round_even_near [of "x / ulp x"] ulp_pos [of x] by (intro mult_right_mono) simp_all
  finally show ?thesis by simp
qed

lemma rnd_le_grid:
  assumes "x \<le> of_int N * ulp x"
  shows "rnd x \<le> of_int N * ulp x"
proof -
  have "x / ulp x \<le> of_int N"
    using assms ulp_pos [of x] by (simp add: pos_divide_le_eq)
  then have "round_even (x / ulp x) \<le> N" by (rule round_even_le)
  then have "(of_int (round_even (x / ulp x)) :: rat) \<le> of_int N" by simp
  then show ?thesis
    unfolding rnd_def using ulp_pos [of x] by (intro mult_right_mono) simp_all
qed

lemma rnd_ge_grid:
  assumes "of_int N * ulp x \<le> x"
  shows "of_int N * ulp x \<le> rnd x"
proof -
  have "of_int N \<le> x / ulp x"
    using assms ulp_pos [of x] by (simp add: pos_le_divide_eq)
  then have "N \<le> round_even (x / ulp x)" by (rule round_even_ge)
  then have "(of_int N :: rat) \<le> of_int (round_even (x / ulp x))" by simp
  then show ?thesis
    unfolding rnd_def using ulp_pos [of x] by (intro mult_right_mono) simp_all
qed

lemma grid_multiple:
  assumes "i \<le> j"
  shows "of_int M * (2::rat) powi j = of_int (M * 2 ^ nat (j - i)) * 2 powi i"
proof -
  have "(2::rat) powi j = 2 powi ((j - i) + i)" by simp
  also have "\<dots> = 2 powi (j - i) * 2 powi i"
    by (rule power_int_add) simp
  also have "(2::rat) powi (j - i) = 2 ^ nat (j - i)"
    using assms by (simp add: power_int_nonneg_exp)
  finally show ?thesis by simp
qed

lemma rnd_le_bound:
  assumes "x \<le> of_int M * 2 powi j" and "max (expo x) (- 1022) - 52 \<le> j"
  shows "rnd x \<le> of_int M * 2 powi j"
proof -
  define N where "N = M * 2 ^ nat (j - (max (expo x) (- 1022) - 52))"
  have eq: "of_int M * (2::rat) powi j = of_int N * ulp x"
    unfolding ulp_def N_def by (rule grid_multiple [OF assms(2)])
  from assms(1) have "x \<le> of_int N * ulp x" by (simp only: eq)
  then have "rnd x \<le> of_int N * ulp x" by (rule rnd_le_grid)
  then show ?thesis by (simp only: eq)
qed

lemma rnd_ge_bound:
  assumes "of_int M * 2 powi j \<le> x" and "max (expo x) (- 1022) - 52 \<le> j"
  shows "of_int M * 2 powi j \<le> rnd x"
proof -
  define N where "N = M * 2 ^ nat (j - (max (expo x) (- 1022) - 52))"
  have eq: "of_int M * (2::rat) powi j = of_int N * ulp x"
    unfolding ulp_def N_def by (rule grid_multiple [OF assms(2)])
  from assms(1) have "of_int N * ulp x \<le> x" by (simp only: eq)
  then have "of_int N * ulp x \<le> rnd x" by (rule rnd_ge_grid)
  then show ?thesis by (simp only: eq)
qed

lemma rnd_nonneg: "0 \<le> x \<Longrightarrow> 0 \<le> rnd x"
  using rnd_ge_grid [of 0 x] by simp

lemma rnd_nonpos: "x \<le> 0 \<Longrightarrow> rnd x \<le> 0"
  using rnd_le_grid [of x 0] by simp

text \<open>Rounding never crosses a power of two (from the subnormal spacing upwards).\<close>

lemma rnd_le_pow2:
  assumes "x \<le> 2 powi k" "- 1074 \<le> k"
  shows "rnd x \<le> 2 powi k"
proof (cases "x \<le> 0")
  case True
  have "(0::rat) \<le> 2 powi k" by simp
  with rnd_nonpos [OF True] show ?thesis by linarith
next
  case False
  then have "x \<noteq> 0" "\<bar>x\<bar> \<le> 2 powi k" using assms(1) by simp_all
  then have "expo x \<le> k" by (rule expo_le)
  with assms(2) have "max (expo x) (- 1022) - 52 \<le> k" by simp
  from rnd_le_bound [of x 1 k, OF _ this] assms(1) show ?thesis by simp
qed

lemma rnd_ge_neg_pow2:
  assumes "- (2 powi k) \<le> x" "- 1074 \<le> k"
  shows "- (2 powi k) \<le> rnd x"
proof (cases "0 \<le> x")
  case True
  have "(0::rat) \<le> 2 powi k" by simp
  with rnd_nonneg [OF True] show ?thesis by linarith
next
  case False
  then have "x \<noteq> 0" "\<bar>x\<bar> \<le> 2 powi k" using assms(1) by simp_all
  then have "expo x \<le> k" by (rule expo_le)
  with assms(2) have "max (expo x) (- 1022) - 52 \<le> k" by simp
  from rnd_ge_bound [of "- 1" k x, OF _ this] assms(1) show ?thesis by simp
qed

lemma rnd_ge_pow2:
  assumes "2 powi k \<le> x" "- 1074 \<le> k"
  shows "2 powi k \<le> rnd x"
proof -
  have "(0::rat) < 2 powi k" by simp
  with assms(1) have x: "0 < x" by linarith
  then have ax: "\<bar>x\<bar> = x" by simp
  have ke: "k \<le> expo x" using assms(1) ax expo_ge by metis
  show ?thesis
  proof (cases "max (expo x) (- 1022) - 52 \<le> k")
    case True
    from rnd_ge_bound [of 1 k x, OF _ True] assms(1) show ?thesis by simp
  next
    case False
    with assms(2) have e: "- 1022 \<le> expo x" by simp
    have "2 powi expo x \<le> x" using expo_bounds(1) [of x] x by simp
    from rnd_ge_bound [of 1 "expo x" x] this e have "2 powi expo x \<le> rnd x" by simp
    moreover have "(2::rat) powi k \<le> 2 powi expo x" using ke by (rule powi_two_mono)
    ultimately show ?thesis by linarith
  qed
qed

lemma rnd_le_neg_pow2:
  assumes "x \<le> - (2 powi k)" "- 1074 \<le> k"
  shows "rnd x \<le> - (2 powi k)"
proof -
  have "(0::rat) < 2 powi k" by simp
  with assms(1) have x: "x < 0" by linarith
  then have ax: "\<bar>x\<bar> = - x" by simp
  have "2 powi k \<le> \<bar>x\<bar>" using assms(1) ax by simp
  then have ke: "k \<le> expo x" by (rule expo_ge)
  show ?thesis
  proof (cases "max (expo x) (- 1022) - 52 \<le> k")
    case True
    from rnd_le_bound [of x "- 1" k, OF _ True] assms(1) show ?thesis by simp
  next
    case False
    with assms(2) have e: "- 1022 \<le> expo x" by simp
    have "x \<le> - (2 powi expo x)" using expo_bounds(1) [of x] x by simp
    from rnd_le_bound [of x "- 1" "expo x"] this e have "rnd x \<le> - (2 powi expo x)" by simp
    moreover have "(2::rat) powi k \<le> 2 powi expo x" using ke by (rule powi_two_mono)
    ultimately show ?thesis by linarith
  qed
qed

lemma rnd_zero: "rnd 0 = 0"
  by (simp add: rnd_def round_even_def)

lemma fl_Fin:
  assumes "- (2 ^ 1024) < rnd x" "rnd x < 2 ^ 1024"
  shows "fl x = Fin (rnd x)"
  using assms by (simp add: fl_def Let_def rnd_zero)

lemma fl_Fin_rnd: "fl x = Fin y \<Longrightarrow> y = rnd x"
  by (auto simp: fl_def Let_def rnd_zero split: if_splits)

lemma pow2_1023: "(2::rat) powi k < 2 ^ 1024" if "k \<le> 1023"
proof -
  have "(2::rat) powi k \<le> 2 powi 1023" using that by (rule powi_two_mono)
  also have "\<dots> < 2 powi 1024" by (intro power_int_strict_increasing) simp_all
  finally show ?thesis by simp
qed

lemma fl_range:
  assumes "- (2 powi a) \<le> x" "x \<le> 2 powi b"
    and "- 1074 \<le> a" "a \<le> 1023" "- 1074 \<le> b" "b \<le> 1023"
  shows "\<exists>y. fl x = Fin y \<and> - (2 powi a) \<le> y \<and> y \<le> 2 powi b"
proof -
  have lo: "- (2 powi a) \<le> rnd x" using assms(1,3) by (rule rnd_ge_neg_pow2)
  have hi: "rnd x \<le> 2 powi b" using assms(2,5) by (rule rnd_le_pow2)
  have "fl x = Fin (rnd x)"
    using lo hi pow2_1023 [OF assms(4)] pow2_1023 [OF assms(6)] by (intro fl_Fin) linarith+
  with lo hi show ?thesis by blast
qed

lemma fl_above_pow2:
  assumes "2 powi k \<le> x" "- 1074 \<le> k"
  shows "above (2 powi k) (fl x)"
proof -
  have lo: "2 powi k \<le> rnd x" using assms by (rule rnd_ge_pow2)
  have "(0::rat) < 2 powi k" by simp
  with lo have "0 < rnd x" by linarith
  then show ?thesis
    using lo by (auto simp: fl_def Let_def above_def rnd_zero)
qed

lemma fl_rel_error:
  assumes "2 powi (- 1022) \<le> x" "x \<le> 2 powi 1023"
  shows "\<exists>y. fl x = Fin y \<and> \<bar>y - x\<bar> \<le> x / 2 ^ 53 \<and> 0 < y"
proof -
  have "(0::rat) < 2 powi (- 1022)" by simp
  with assms(1) have x: "0 < x" by linarith
  have e: "- 1022 \<le> expo x"
    using assms(1) x expo_ge [of "- 1022" x] by simp
  have "ulp x = 2 powi (expo x + (- 52))"
    using e by (simp add: ulp_def max_def)
  also have "\<dots> = 2 powi expo x * 2 powi (- 52)"
    by (rule power_int_add) simp
  also have "\<dots> \<le> x * 2 powi (- 52)"
    using expo_bounds(1) [of x] x by (intro mult_right_mono) simp_all
  finally have "ulp x / 2 \<le> x / 2 ^ 53"
    by (simp add: power_int_minus_divide)
  with rnd_near [of x] have near: "\<bar>rnd x - x\<bar> \<le> x / 2 ^ 53" by linarith
  have lo: "2 powi (- 1022) \<le> rnd x" using assms(1) by (intro rnd_ge_pow2) simp_all
  have hi: "rnd x \<le> 2 powi 1023" using assms(2) by (intro rnd_le_pow2) simp_all
  have pos: "0 < rnd x" using lo \<open>(0::rat) < 2 powi (- 1022)\<close> by linarith
  have "fl x = Fin (rnd x)"
    using pos hi pow2_1023 [of 1023] by (intro fl_Fin) linarith+
  with near pos show ?thesis by blast
qed

lemma dbl_max_grid: "dbl_max = of_int (2 ^ 53 - 1) * 2 powi 971"
  by (simp add: dbl_max_def)

lemma dbl_max_less: "dbl_max < 2 powi 1024"
  by (simp add: dbl_max_def)

lemma rnd_le_dbl_max:
  assumes "x \<le> dbl_max"
  shows "rnd x \<le> dbl_max"
proof (cases "x \<le> 0")
  case True
  have "0 \<le> dbl_max" by (simp add: dbl_max_def)
  with rnd_nonpos [OF True] show ?thesis by linarith
next
  case False
  then have "x \<noteq> 0" "\<bar>x\<bar> < 2 powi 1024" using assms dbl_max_less by simp_all
  then have "expo x < 1024" by (rule expo_less)
  then have "max (expo x) (- 1022) - 52 \<le> 971" by simp
  from rnd_le_bound [of x "2 ^ 53 - 1" 971, OF _ this] assms show ?thesis
    by (simp only: dbl_max_grid)
qed

lemma rnd_ge_neg_dbl_max:
  assumes "- dbl_max \<le> x"
  shows "- dbl_max \<le> rnd x"
proof (cases "0 \<le> x")
  case True
  have "0 \<le> dbl_max" by (simp add: dbl_max_def)
  with rnd_nonneg [OF True] show ?thesis by linarith
next
  case False
  then have "x \<noteq> 0" "\<bar>x\<bar> < 2 powi 1024" using assms dbl_max_less by simp_all
  then have "expo x < 1024" by (rule expo_less)
  then have e: "max (expo x) (- 1022) - 52 \<le> 971" by simp
  have neg: "- dbl_max = of_int (- (2 ^ 53 - 1)) * 2 powi 971"
    by (simp only: dbl_max_grid of_int_minus mult_minus_left)
  from rnd_ge_bound [of "- (2 ^ 53 - 1)" 971 x, OF _ e] assms show ?thesis
    by (simp only: neg)
qed

lemma fl_below_dbl_max:
  assumes "x \<le> dbl_max"
  shows "below dbl_max (fl x)"
proof -
  have "rnd x \<le> dbl_max" using assms by (rule rnd_le_dbl_max)
  moreover have "dbl_max < 2 ^ 1024" using dbl_max_less by simp
  ultimately show ?thesis
    by (auto simp: fl_def Let_def below_def dbl_max_def)
qed

lemma fl_above_neg_dbl_max:
  assumes "- dbl_max \<le> x"
  shows "above (- dbl_max) (fl x)"
proof -
  have "- dbl_max \<le> rnd x" using assms by (rule rnd_ge_neg_dbl_max)
  moreover have "dbl_max < 2 ^ 1024" using dbl_max_less by simp
  ultimately show ?thesis
    by (auto simp: fl_def Let_def above_def dbl_max_def)
qed

section \<open>The partition step\<close>

lemma separate_append:
  "separate bal ds cs =
     (ds @ map mk_entry (filter is_debtor bal), cs @ map mk_entry (filter is_creditor bal))"
  by (induction bal arbitrary: ds cs)
     (auto simp: mk_entry_def is_debtor_def is_creditor_def Let_def)

text \<open>
  C2 (as amended). The partition step compares strictly: the debtors are exactly the
  entries whose amount is below \<open>-0.01\<close>, the creditors exactly those whose amount is
  above \<open>0.01\<close>, each in the order of the mapping; an amount of exactly \<open>-0.01\<close> or
  \<open>0.01\<close> enters neither list.
\<close>

theorem separate_strict:
  "separate bal [] [] =
     (map mk_entry (filter (\<lambda>pa. num_less (snd pa) (num_neg (lit (1 / 100)))) bal),
      map mk_entry (filter (\<lambda>pa. num_less (lit (1 / 100)) (snd pa)) bal))"
proof -
  have "is_debtor = (\<lambda>pa. num_less (snd pa) (num_neg (lit (1 / 100))))"
    by (rule ext) (simp add: is_debtor_def)
  moreover have "is_creditor = (\<lambda>pa. num_less (lit (1 / 100)) (snd pa))"
    by (rule ext) (simp add: is_creditor_def)
  ultimately show ?thesis
    using separate_append [of bal "[]" "[]"] by simp
qed

text \<open>
  C2 as stated fails: a participant at exactly \<open>-0.01\<close> and one at exactly \<open>0.01\<close> are
  placed in neither list.
\<close>

theorem separate_boundary_excluded:
  "separate [(''A'', num_neg (lit (1 / 100))), (''B'', lit (1 / 100))] [] [] = ([], [])"
  by (simp add: lit_cent cent_def)

section \<open>Inputs with nothing to settle\<close>

lemma within_epsilon_not_debtor: "within_epsilon a \<Longrightarrow> \<not> is_debtor (p, a)"
  by (cases a) (auto simp: within_epsilon_def is_debtor_def lit_cent cent_def)

lemma within_epsilon_not_creditor: "within_epsilon a \<Longrightarrow> \<not> is_creditor (p, a)"
  by (cases a) (auto simp: within_epsilon_def is_creditor_def lit_cent cent_def)

lemma simplifyDebts_no_lists:
  assumes "filter is_debtor bal = [] \<or> filter is_creditor bal = []"
  shows "simplifyDebts bal = Some []"
proof -
  have "\<not> loop_cond (initial_state bal)"
    using assms by (auto simp: loop_cond_def initial_state_def separate_append sort_cmp_def)
  then have "match_loop (initial_state bal) = Some (initial_state bal)"
    by (simp add: match_loop.simps)
  then show ?thesis
    by (simp add: simplifyDebts_def initial_state_def split: prod.splits)
qed

text \<open>
  C6. If the mapping is empty, or every balance in it is within epsilon of zero, the
  engine returns the empty sequence of settlements.
\<close>

theorem simplifyDebts_all_settled:
  assumes "\<forall>(p, a) \<in> set bal. within_epsilon a"
  shows "simplifyDebts bal = Some []"
proof -
  have "filter is_debtor bal = []"
    using assms within_epsilon_not_debtor by (fastforce simp: filter_empty_conv)
  then show ?thesis
    by (simp add: simplifyDebts_no_lists)
qed

theorem simplifyDebts_all_settled_witness:
  "simplifyDebts [] = Some [] \<and>
   simplifyDebts [(''A'', lit (1 / 200)), (''B'', num_neg (lit (1 / 200)))] = Some []"
proof -
  have "\<forall>(p, a) \<in> set [(''A'', lit (1 / 200)), (''B'', num_neg (lit (1 / 200)))].
          within_epsilon a"
    by (simp add: within_epsilon_def num_eval)
  then show ?thesis
    using simplifyDebts_all_settled [of "[]"]
      simplifyDebts_all_settled [of "[(''A'', lit (1 / 200)), (''B'', num_neg (lit (1 / 200)))]"]
    by simp
qed

section \<open>Sorting keeps the elements\<close>

lemma set_insort_cmp: "set (insort_cmp cmp x ys) = insert x (set ys)"
  by (induction ys) auto

lemma length_insort_cmp: "length (insort_cmp cmp x ys) = Suc (length ys)"
  by (induction ys) auto

lemma set_sort_cmp: "set (sort_cmp cmp xs) = set xs"
  unfolding sort_cmp_def by (induction xs) (auto simp: set_insort_cmp)

lemma length_sort_cmp: "length (sort_cmp cmp xs) = length xs"
  unfolding sort_cmp_def by (induction xs) (auto simp: length_insort_cmp)

lemma debtors_initial_state:
  "debtors (initial_state bal) = sort_cmp cmp_debtors (map mk_entry (filter is_debtor bal))"
  by (simp add: initial_state_def separate_append)

lemma creditors_initial_state:
  "creditors (initial_state bal) =
     sort_cmp cmp_creditors (map mk_entry (filter is_creditor bal))"
  by (simp add: initial_state_def separate_append)

lemma cursors_initial_state:
  "cur_i (initial_state bal) = 0" "cur_j (initial_state bal) = 0"
  "settlements (initial_state bal) = []"
  by (simp_all add: initial_state_def split: prod.splits)

section \<open>Reasoning about the matching loop\<close>

text \<open>Partial correctness: an invariant of the body holds at the exit, where the guard fails.\<close>

lemma match_loop_invariant:
  assumes run: "match_loop s = Some t"
    and init: "I s"
    and step: "\<And>u. I u \<Longrightarrow> loop_cond u \<Longrightarrow> I (loop_body u)"
  shows "I t \<and> \<not> loop_cond t"
proof -
  have "I s \<longrightarrow> I t \<and> \<not> loop_cond t"
  proof (rule match_loop.raw_induct
      [where P = "\<lambda>u v. I u \<longrightarrow> I v \<and> \<not> loop_cond v" and s = s and y = t])
    show "match_loop s = Some t" by (fact run)
  next
    fix loop :: "loop_state \<Rightarrow> loop_state option" and u v
    assume IH: "\<And>x y. loop x = Some y \<Longrightarrow> I x \<longrightarrow> I y \<and> \<not> loop_cond y"
      and eq: "(if loop_cond u then loop (loop_body u) else Some u) = Some v"
    show "I u \<longrightarrow> I v \<and> \<not> loop_cond v"
    proof (cases "loop_cond u")
      case True
      with eq have "loop (loop_body u) = Some v" by simp
      from IH [OF this] step True show ?thesis by blast
    next
      case False
      with eq show ?thesis by auto
    qed
  qed
  with init show ?thesis by simp
qed

text \<open>
  Total correctness: when a measure decreases in every pass that keeps the invariant,
  the loop leaves after at most that many passes, in the state the passes produce.
\<close>

lemma match_loop_measure:
  assumes step: "\<And>u. I u \<Longrightarrow> loop_cond u \<Longrightarrow> I (loop_body u) \<and> m (loop_body u) < m u"
    and init: "I s"
  shows "\<exists>k \<le> m s. match_loop s = Some ((loop_body ^^ k) s) \<and>
           (\<forall>n < k. loop_cond ((loop_body ^^ n) s)) \<and> \<not> loop_cond ((loop_body ^^ k) s) \<and>
           (\<forall>n \<le> k. I ((loop_body ^^ n) s))"
  using init
proof (induction "m s" arbitrary: s rule: less_induct)
  case less
  show ?case
  proof (cases "loop_cond s")
    case False
    then have "match_loop s = Some ((loop_body ^^ 0) s)"
      by (simp add: match_loop.simps)
    with False less.prems show ?thesis by (intro exI [of _ 0]) simp
  next
    case True
    from step [OF less.prems True]
    have I': "I (loop_body s)" and dec: "m (loop_body s) < m s" by simp_all
    from less.hyps [OF dec I'] obtain k where k: "k \<le> m (loop_body s)"
      "match_loop (loop_body s) = Some ((loop_body ^^ k) (loop_body s))"
      "\<forall>n < k. loop_cond ((loop_body ^^ n) (loop_body s))"
      "\<not> loop_cond ((loop_body ^^ k) (loop_body s))"
      "\<forall>n \<le> k. I ((loop_body ^^ n) (loop_body s))"
      by blast
    have "match_loop s = Some ((loop_body ^^ Suc k) s)"
      using True k(2) by (subst match_loop.simps) (simp add: funpow_swap1)
    moreover have "\<forall>n < Suc k. loop_cond ((loop_body ^^ n) s)"
    proof (intro allI impI)
      fix n assume "n < Suc k"
      then show "loop_cond ((loop_body ^^ n) s)"
        using True k(3) by (cases n) (simp_all add: funpow_swap1)
    qed
    moreover have "\<forall>n \<le> Suc k. I ((loop_body ^^ n) s)"
    proof (intro allI impI)
      fix n assume "n \<le> Suc k"
      then show "I ((loop_body ^^ n) s)"
        using less.prems k(5) by (cases n) (simp_all add: funpow_swap1)
    qed
    moreover have "\<not> loop_cond ((loop_body ^^ Suc k) s)"
      using k(4) by (simp add: funpow_swap1)
    moreover have "Suc k \<le> m s"
      using k(1) dec by simp
    ultimately show ?thesis by blast
  qed
qed

lemma settlements_loop_body:
  "settlements (loop_body s) =
     settlements s @
       [\<lparr>sfrom = person (debtors s ! cur_i s), sto = person (creditors s ! cur_j s),
         samount = transfer (debtors s ! cur_i s) (creditors s ! cur_j s),
         currency = ''USD''\<rparr>]"
  by (simp add: loop_body_def Let_def)

lemma length_settlements_funpow:
  "length (settlements ((loop_body ^^ k) s)) = length (settlements s) + k"
  by (induction k) (simp_all add: settlements_loop_body)

lemma persons_loop_body:
  assumes "loop_cond s"
  shows "map person (debtors (loop_body s)) = map person (debtors s)"
    and "map person (creditors (loop_body s)) = map person (creditors s)"
  using assms
  by (simp_all add: loop_body_def loop_cond_def Let_def map_update list_update_same_conv)

section \<open>Nobody pays themselves\<close>

lemma not_debtor_and_creditor: "\<not> (is_debtor (p, a) \<and> is_creditor (p, a))"
  by (cases a) (auto simp: is_debtor_def is_creditor_def lit_cent cent_def)

lemma payers_payees_step:
  assumes "payers_payees D C s" "loop_cond s"
  shows "payers_payees D C (loop_body s)"
proof -
  have "person (debtors s ! cur_i s) \<in> set (map person (debtors s))"
    and "person (creditors s ! cur_j s) \<in> set (map person (creditors s))"
    using assms(2) by (auto simp: loop_cond_def)
  then show ?thesis
    using assms unfolding payers_payees_def
    by (auto simp: persons_loop_body settlements_loop_body simp del: set_map)
qed

text \<open>
  C8. No settlement has the same participant as payer and payee: a key of the mapping
  has one amount, which cannot be both below \<open>-0.01\<close> and above \<open>0.01\<close>.
\<close>

theorem simplifyDebts_no_self_payment:
  assumes "distinct (map fst bal)" and "simplifyDebts bal = Some ss"
  shows "\<forall>x \<in> set ss. sfrom x \<noteq> sto x"
proof -
  define D where "D = fst ` {pa \<in> set bal. is_debtor pa}"
  define C where "C = fst ` {pa \<in> set bal. is_creditor pa}"
  have disj: "D \<inter> C = {}"
  proof (rule ccontr)
    assume "D \<inter> C \<noteq> {}"
    then obtain p a b where "(p, a) \<in> set bal" "is_debtor (p, a)"
      "(p, b) \<in> set bal" "is_creditor (p, b)"
      unfolding D_def C_def by auto
    moreover from this assms(1) have "a = b"
      by (meson eq_key_imp_eq_value)
    ultimately show False
      using not_debtor_and_creditor by blast
  qed
  from assms(2) obtain t where t: "match_loop (initial_state bal) = Some t"
    and ss: "ss = settlements t"
    by (auto simp: simplifyDebts_def)
  have "payers_payees D C (initial_state bal)"
    unfolding payers_payees_def debtors_initial_state creditors_initial_state
      cursors_initial_state
    by (auto simp: set_sort_cmp mk_entry_def D_def C_def image_iff)
  with t have "payers_payees D C t"
    using match_loop_invariant [where I = "payers_payees D C"] payers_payees_step by blast
  with disj ss show ?thesis
    unfolding payers_payees_def by auto
qed

theorem simplifyDebts_no_self_payment_witness:
  "distinct (map fst [(''A'', Fin (- 30)), (''B'', Fin 10), (''C'', Fin 20)]) \<and>
   simplifyDebts [(''A'', Fin (- 30)), (''B'', Fin 10), (''C'', Fin 20)] =
     Some [\<lparr>sfrom = ''A'', sto = ''C'', samount = Fin 20, currency = ''USD''\<rparr>,
           \<lparr>sfrom = ''A'', sto = ''B'', samount = Fin 10, currency = ''USD''\<rparr>] \<and>
   sfrom \<lparr>sfrom = ''A'', sto = ''C'', samount = Fin 20, currency = ''USD''\<rparr> \<noteq>
     sto \<lparr>sfrom = ''A'', sto = ''C'', samount = Fin 20, currency = ''USD''\<rparr> \<and>
   sfrom \<lparr>sfrom = ''A'', sto = ''B'', samount = Fin 10, currency = ''USD''\<rparr> \<noteq>
     sto \<lparr>sfrom = ''A'', sto = ''B'', samount = Fin 10, currency = ''USD''\<rparr>"
proof -
  have d: "distinct (map fst [(''A'', Fin (- 30)), (''B'', Fin 10), (''C'', Fin 20)])"
    by simp
  have r: "simplifyDebts [(''A'', Fin (- 30)), (''B'', Fin 10), (''C'', Fin 20)] =
     Some [\<lparr>sfrom = ''A'', sto = ''C'', samount = Fin 20, currency = ''USD''\<rparr>,
           \<lparr>sfrom = ''A'', sto = ''B'', samount = Fin 10, currency = ''USD''\<rparr>]"
    by (simp add: loop_eval num_eval)
  show ?thesis
    using simplifyDebts_no_self_payment [OF d r] d r by simp
qed

section \<open>One pass of the loop body\<close>

lemma loop_body_fields:
  "debtors (loop_body s) = (debtors s)[cur_i s := (cur_debtor s)\<lparr>amount := new_debt s\<rparr>]"
  "creditors (loop_body s) = (creditors s)[cur_j s := (cur_creditor s)\<lparr>amount := new_credit s\<rparr>]"
  "cur_i (loop_body s) =
     (if num_less (Math_abs (new_debt s)) (lit (1 / 100)) then cur_i s + 1 else cur_i s)"
  "cur_j (loop_body s) =
     (if num_less (new_credit s) (lit (1 / 100)) then cur_j s + 1 else cur_j s)"
  "settlements (loop_body s) = settlements s @
     [\<lparr>sfrom = person (cur_debtor s), sto = person (cur_creditor s),
       samount = cur_transfer s, currency = ''USD''\<rparr>]"
  by (simp_all add: loop_body_def Let_def cur_debtor_def cur_creditor_def cur_transfer_def
      new_debt_def new_credit_def)

lemma cursors_ok_step:
  assumes ok: "cursors_ok PD PC s" and "loop_cond s"
    and d: "PD (new_debt s) \<or> num_less (Math_abs (new_debt s)) (lit (1 / 100))"
    and c: "PC (new_credit s) \<or> num_less (new_credit s) (lit (1 / 100))"
  shows "cursors_ok PD PC (loop_body s)"
  unfolding cursors_ok_def
proof (intro conjI allI impI)
  fix k assume k: "cur_i (loop_body s) \<le> k \<and> k < length (debtors (loop_body s))"
  show "PD (amount (debtors (loop_body s) ! k))"
  proof (cases "k = cur_i s")
    case True
    with k have "\<not> num_less (Math_abs (new_debt s)) (lit (1 / 100))"
      by (auto simp: loop_body_fields split: if_splits)
    with d have "PD (new_debt s)" by simp
    with True k show ?thesis by (simp add: loop_body_fields)
  next
    case False
    with k have "cur_i s \<le> k \<and> k < length (debtors s)"
      by (auto simp: loop_body_fields split: if_splits)
    with ok have "PD (amount (debtors s ! k))" by (simp add: cursors_ok_def)
    with False show ?thesis by (simp add: loop_body_fields)
  qed
next
  fix k assume k: "cur_j (loop_body s) \<le> k \<and> k < length (creditors (loop_body s))"
  show "PC (amount (creditors (loop_body s) ! k))"
  proof (cases "k = cur_j s")
    case True
    with k have "\<not> num_less (new_credit s) (lit (1 / 100))"
      by (auto simp: loop_body_fields split: if_splits)
    with c have "PC (new_credit s)" by simp
    with True k show ?thesis by (simp add: loop_body_fields)
  next
    case False
    with k have "cur_j s \<le> k \<and> k < length (creditors s)"
      by (auto simp: loop_body_fields split: if_splits)
    with ok have "PC (amount (creditors s ! k))" by (simp add: cursors_ok_def)
    with False show ?thesis by (simp add: loop_body_fields)
  qed
qed

lemma cursors_ok_current:
  assumes "cursors_ok PD PC s" "loop_cond s"
  shows "PD (amount (cur_debtor s))" "PC (amount (cur_creditor s))"
  using assms by (simp_all add: cursors_ok_def loop_cond_def cur_debtor_def cur_creditor_def)

lemma cursors_ok_initial:
  assumes "\<forall>pa \<in> set bal. is_debtor pa \<longrightarrow> PD (snd pa)"
    and "\<forall>pa \<in> set bal. is_creditor pa \<longrightarrow> PC (snd pa)"
  shows "cursors_ok PD PC (initial_state bal)"
proof -
  have "\<forall>e \<in> set (debtors (initial_state bal)). PD (amount e)"
    using assms(1) by (auto simp: debtors_initial_state set_sort_cmp mk_entry_def)
  moreover have "\<forall>e \<in> set (creditors (initial_state bal)). PC (amount e)"
    using assms(2) by (auto simp: creditors_initial_state set_sort_cmp mk_entry_def)
  ultimately show ?thesis by (simp add: cursors_ok_def)
qed

section \<open>Every amount is positive\<close>

lemma cent_bounds: "1 / 100 \<le> cent" "2 powi (- 7) < cent" "0 < cent"
  by (simp_all add: cent_def)

lemma above_positive: "above (2 powi (- 7)) a \<Longrightarrow> num_less (Fin 0) a"
proof (cases a)
  case (Fin y)
  assume "above (2 powi (- 7)) a"
  with Fin have "2 powi (- 7) \<le> y" by (simp add: above_def)
  moreover have "(0::rat) < 2 powi (- 7)" by simp
  ultimately have "0 < y" by linarith
  with Fin show ?thesis by simp
qed (simp_all add: above_def)

lemma round2_above:
  assumes "1 / 100 \<le> v"
  shows "above (2 powi (- 7)) (round2 (Fin v))"
proof -
  have "2 powi 0 \<le> v * 100" using assms by simp
  then have ab: "above (2 powi 0) (fl (v * 100))" by (rule fl_above_pow2) simp
  show ?thesis
  proof (cases "fl (v * 100)")
    case (Fin p)
    with ab have p: "1 \<le> p" by (simp add: above_def)
    define n where "n = \<lfloor>p + 1 / 2\<rfloor>"
    have "1 \<le> n" using p unfolding n_def by (simp add: le_floor_iff)
    then have "(1::rat) \<le> of_int n" by simp
    then have "2 powi (- 7) \<le> (of_int n :: rat) / 100"
      by (simp add: power_int_minus_divide)
    then have "above (2 powi (- 7)) (fl (of_int n / 100))" by (rule fl_above_pow2) simp
    then show ?thesis
      by (simp add: round2_def lit_hundred Fin n_def)
  next
    case PInf
    then show ?thesis by (simp add: round2_def lit_hundred above_def)
  next
    case NInf
    with ab show ?thesis by (simp add: above_def)
  next
    case NaN
    with ab show ?thesis by (simp add: above_def)
  qed
qed

lemma min_live:
  assumes "live_debt d" "live_credit c"
  shows "\<exists>v. Math_min (Math_abs d) c = Fin v \<and> cent \<le> v"
  using assms by (cases d; cases c) (auto simp: live_debt_def live_credit_def)

lemma transfer_live:
  assumes "live_debt (amount d)" "live_credit (amount c)"
  shows "above (2 powi (- 7)) (transfer d c)"
proof -
  from min_live [OF assms] obtain v
    where v: "Math_min (Math_abs (amount d)) (amount c) = Fin v" "cent \<le> v" by blast
  then have "1 / 100 \<le> v" using cent_bounds(1) by linarith
  then show ?thesis unfolding transfer_def v(1) by (rule round2_above)
qed

lemma pay_debtor_live:
  assumes "live_debt d" "above (2 powi (- 7)) a"
  shows "live_debt (num_add d a) \<or> num_less (Math_abs (num_add d a)) (lit (1 / 100))"
proof (cases d)
  case d: (Fin x)
  show ?thesis
  proof (cases a)
    case a: (Fin av)
    have "(0::rat) < 2 powi (- 7)" by simp
    with assms a have "0 < av" by (simp add: above_def)
    moreover from assms(1) d have "- dbl_max \<le> x" by (simp add: live_debt_def)
    ultimately have "- dbl_max \<le> x + av" by linarith
    then have "above (- dbl_max) (fl (x + av))" by (rule fl_above_neg_dbl_max)
    then show ?thesis
      by (cases "fl (x + av)") (auto simp: d a above_def live_debt_def lit_cent)
  qed (use assms d in \<open>simp_all add: above_def live_debt_def\<close>)
qed (use assms in \<open>cases a; simp_all add: above_def live_debt_def\<close>)+

lemma pay_creditor_live:
  assumes "live_credit c" "above (2 powi (- 7)) a"
  shows "live_credit (num_sub c a) \<or> num_less (num_sub c a) (lit (1 / 100))"
proof (cases c)
  case c: (Fin x)
  show ?thesis
  proof (cases a)
    case a: (Fin av)
    have "(0::rat) < 2 powi (- 7)" by simp
    with assms a have "0 < av" by (simp add: above_def)
    moreover from assms(1) c have "x \<le> dbl_max" by (simp add: live_credit_def)
    ultimately have "x + - av \<le> dbl_max" by linarith
    then have "below dbl_max (fl (x + - av))" by (rule fl_below_dbl_max)
    then show ?thesis
      by (cases "fl (x + - av)") (auto simp: c a below_def live_credit_def lit_cent num_sub_def)
  qed (use assms c in \<open>simp_all add: above_def live_credit_def num_sub_def lit_cent\<close>)
qed (use assms in \<open>simp_all add: live_credit_def\<close>)

lemma live_step:
  assumes "cursors_ok live_debt live_credit s" "loop_cond s"
  shows "cursors_ok live_debt live_credit (loop_body s)"
    and "above (2 powi (- 7)) (cur_transfer s)"
proof -
  note cur = cursors_ok_current [OF assms]
  show t: "above (2 powi (- 7)) (cur_transfer s)"
    unfolding cur_transfer_def using cur by (rule transfer_live)
  show "cursors_ok live_debt live_credit (loop_body s)"
    using assms
  proof (rule cursors_ok_step)
    show "live_debt (new_debt s) \<or> num_less (Math_abs (new_debt s)) (lit (1 / 100))"
      unfolding new_debt_def using cur(1) t by (rule pay_debtor_live)
    show "live_credit (new_credit s) \<or> num_less (new_credit s) (lit (1 / 100))"
      unfolding new_credit_def using cur(2) t by (rule pay_creditor_live)
  qed
qed

lemma finite_debtor_live: "finite_number a \<Longrightarrow> is_debtor (p, a) \<Longrightarrow> live_debt a"
  by (cases a) (auto simp: finite_number_def is_debtor_def live_debt_def lit_cent)

lemma finite_creditor_live: "finite_number a \<Longrightarrow> is_creditor (p, a) \<Longrightarrow> live_credit a"
  by (cases a) (auto simp: finite_number_def is_creditor_def live_credit_def lit_cent)

text \<open>
  C3. For every mapping of finite amounts, every settlement the engine emits has an
  amount strictly greater than zero, after the rounding to two decimals.
\<close>

theorem simplifyDebts_positive_amounts:
  assumes fin: "\<forall>(p, a) \<in> set bal. finite_number a"
    and run: "simplifyDebts bal = Some ss"
  shows "\<forall>x \<in> set ss. num_less (Fin 0) (samount x)"
proof -
  define I where "I s \<longleftrightarrow> cursors_ok live_debt live_credit s \<and>
    (\<forall>x \<in> set (settlements s). num_less (Fin 0) (samount x))" for s
  from run obtain t where t: "match_loop (initial_state bal) = Some t"
    and ss: "ss = settlements t"
    by (auto simp: simplifyDebts_def)
  have "cursors_ok live_debt live_credit (initial_state bal)"
    using fin by (intro cursors_ok_initial) (fastforce intro: finite_debtor_live finite_creditor_live)+
  then have init: "I (initial_state bal)"
    by (simp add: I_def cursors_initial_state)
  have step: "I (loop_body u)" if "I u" "loop_cond u" for u
    using that live_step [of u] above_positive [of "cur_transfer u"]
    by (auto simp: I_def loop_body_fields)
  from match_loop_invariant [of "initial_state bal" t I, OF t init step]
  show ?thesis by (simp add: I_def ss)
qed

theorem simplifyDebts_positive_amounts_witness:
  "finite_number (Fin (- 30)) \<and> finite_number (Fin 10) \<and> finite_number (Fin 20) \<and>
   simplifyDebts [(''A'', Fin (- 30)), (''B'', Fin 10), (''C'', Fin 20)] =
     Some [\<lparr>sfrom = ''A'', sto = ''C'', samount = Fin 20, currency = ''USD''\<rparr>,
           \<lparr>sfrom = ''A'', sto = ''B'', samount = Fin 10, currency = ''USD''\<rparr>] \<and>
   num_less (Fin 0) (Fin 20) \<and> num_less (Fin 0) (Fin 10)"
proof -
  have f: "\<forall>(p, a) \<in> set [(''A'', Fin (- 30)), (''B'', Fin 10), (''C'', Fin 20)].
             finite_number a"
    by (simp add: finite_number_def dbl_max_def)
  have r: "simplifyDebts [(''A'', Fin (- 30)), (''B'', Fin 10), (''C'', Fin 20)] =
     Some [\<lparr>sfrom = ''A'', sto = ''C'', samount = Fin 20, currency = ''USD''\<rparr>,
           \<lparr>sfrom = ''A'', sto = ''B'', samount = Fin 10, currency = ''USD''\<rparr>]"
    by (simp add: loop_eval num_eval)
  show ?thesis
    using simplifyDebts_positive_amounts [OF f r] f r by simp
qed

section \<open>How many passes the loop makes\<close>

lemma round2_near:
  assumes "cent \<le> v" "v \<le> 2 ^ 43"
  shows "\<exists>a. round2 (Fin v) = Fin a \<and> \<bar>a - v\<bar> \<le> 1 / 128 \<and> 0 < a"
proof -
  have v1: "1 \<le> v * 100" using assms(1) cent_bounds(1) by linarith
  have "2 powi (- 1022) \<le> (1::rat)" by (simp add: power_int_minus_divide)
  with v1 have lo: "2 powi (- 1022) \<le> v * 100" by linarith
  have "(2::rat) ^ 50 \<le> 2 powi 1023" using powi_two_mono [of 50 1023] by simp
  moreover have "v * 100 \<le> 2 ^ 50" using assms(2) by simp
  ultimately have hi: "v * 100 \<le> 2 powi 1023" by linarith
  from fl_rel_error [OF lo hi] obtain p
    where p: "fl (v * 100) = Fin p" "\<bar>p - v * 100\<bar> \<le> v * 100 / 2 ^ 53" "0 < p" by blast
  define n where "n = \<lfloor>p + 1 / 2\<rfloor>"
  have n: "of_int n \<le> p + 1 / 2" "p + 1 / 2 < of_int n + 1"
    using floor_correct [of "p + 1 / 2"] by (simp_all add: n_def)
  have "1 / 2 < p" using p(2) v1 by (simp add: abs_if split: if_splits)
  with n(2) have "(0::rat) < of_int n" by linarith
  then have n1: "(1::rat) \<le> of_int n" by (simp add: int_one_le_iff_zero_less)
  define q :: rat where "q = of_int n / 100"
  have "2 powi (- 1022) \<le> (1::rat) / 100" by (simp add: power_int_minus_divide)
  with n1 have qlo: "2 powi (- 1022) \<le> q" by (simp add: q_def)
  have "q \<le> 2 ^ 50" using n(1) p(2) assms(2) by (simp add: q_def abs_if split: if_splits)
  with \<open>(2::rat) ^ 50 \<le> 2 powi 1023\<close> have qhi: "q \<le> 2 powi 1023" by linarith
  from fl_rel_error [OF qlo qhi] obtain a
    where a: "fl q = Fin a" "\<bar>a - q\<bar> \<le> q / 2 ^ 53" "0 < a" by blast
  have "round2 (Fin v) = Fin a"
    by (simp add: round2_def lit_hundred p(1) n_def [symmetric] q_def [symmetric] a(1))
  moreover have "\<bar>a - v\<bar> \<le> 1 / 128"
    using a(2) p(2) n assms(2) by (simp add: q_def abs_if split: if_splits)
  ultimately show ?thesis using a(3) by blast
qed

lemma small_pay:
  assumes d: "small_debt d" and c: "small_credit c"
  shows "small_debt (num_add d (round2 (Math_min (Math_abs d) c))) \<or>
           num_less (Math_abs (num_add d (round2 (Math_min (Math_abs d) c)))) (lit (1 / 100))"
    and "small_credit (num_sub c (round2 (Math_min (Math_abs d) c))) \<or>
           num_less (num_sub c (round2 (Math_min (Math_abs d) c))) (lit (1 / 100))"
    and "num_less (Math_abs (num_add d (round2 (Math_min (Math_abs d) c)))) (lit (1 / 100)) \<or>
           num_less (num_sub c (round2 (Math_min (Math_abs d) c))) (lit (1 / 100))"
proof -
  from d obtain x where x: "d = Fin x" "- (2 ^ 43) \<le> x" "x \<le> - cent"
    by (cases d) (auto simp: small_debt_def)
  from c obtain y where y: "c = Fin y" "cent \<le> y" "y \<le> 2 ^ 43"
    by (cases c) (auto simp: small_credit_def)
  define v where "v = (if y < - x then y else - x)"
  have xneg: "\<bar>x\<bar> = - x" using x(3) cent_bounds(3) by simp
  have m: "Math_min (Math_abs d) c = Fin v"
    by (simp add: x(1) y(1) xneg v_def)
  have v: "cent \<le> v" "v \<le> 2 ^ 43" "v \<le> - x" "v \<le> y"
    using x y by (auto simp: v_def)
  from round2_near [OF v(1,2)] obtain a
    where a: "round2 (Fin v) = Fin a" "\<bar>a - v\<bar> \<le> 1 / 128" "0 < a" by blast
  have p7: "(2::rat) powi (- 7) = 1 / 128" by (simp add: power_int_minus_divide)
  have p43: "(2::rat) powi 43 = 2 ^ 43" by simp
  have c7: "1 / 128 < cent" using cent_bounds(2) by (simp add: p7)
  have "- (2 powi 43) \<le> x + a" "x + a \<le> 2 powi (- 7)"
    using a(2,3) x(2) v(3) unfolding p7 p43 by (simp_all add: abs_if split: if_splits)
  from fl_range [OF this] obtain x' where x': "fl (x + a) = Fin x'"
    "- (2 ^ 43) \<le> x'" "x' \<le> 1 / 128"
    unfolding p7 p43 by auto
  have "- (2 powi (- 7)) \<le> y - a" "y - a \<le> 2 powi 43"
    using a(2,3) y(3) v(4) unfolding p7 p43 by (simp_all add: abs_if split: if_splits)
  from fl_range [OF this] obtain y' where y': "fl (y - a) = Fin y'"
    "- (1 / 128) \<le> y'" "y' \<le> 2 ^ 43"
    unfolding p7 p43 by auto
  have d': "num_add d (round2 (Math_min (Math_abs d) c)) = Fin x'"
    unfolding m a(1) by (simp add: x(1) x'(1))
  have c': "num_sub c (round2 (Math_min (Math_abs d) c)) = Fin y'"
    unfolding m a(1) by (simp add: y(1) y'(1) num_sub_def)
  show "small_debt (num_add d (round2 (Math_min (Math_abs d) c))) \<or>
           num_less (Math_abs (num_add d (round2 (Math_min (Math_abs d) c)))) (lit (1 / 100))"
    unfolding d' using x'(2,3) c7 by (auto simp: small_debt_def lit_cent)
  show "small_credit (num_sub c (round2 (Math_min (Math_abs d) c))) \<or>
           num_less (num_sub c (round2 (Math_min (Math_abs d) c))) (lit (1 / 100))"
    unfolding c' using y'(2,3) c7 by (auto simp: small_credit_def lit_cent)
  show "num_less (Math_abs (num_add d (round2 (Math_min (Math_abs d) c)))) (lit (1 / 100)) \<or>
           num_less (num_sub c (round2 (Math_min (Math_abs d) c))) (lit (1 / 100))"
  proof (cases "y < - x")
    case True
    then have "v = y" by (simp add: v_def)
    with a(2) have "- (2 powi (- 7)) \<le> y - a" "y - a \<le> 2 powi (- 7)"
      unfolding p7 by (simp_all add: abs_if split: if_splits)
    from fl_range [OF this] y'(1) have "y' \<le> 1 / 128"
      unfolding p7 by auto
    with c7 show ?thesis unfolding c' by (simp add: lit_cent)
  next
    case False
    then have "v = - x" by (simp add: v_def)
    with a(2) have "- (2 powi (- 7)) \<le> x + a" "x + a \<le> 2 powi (- 7)"
      unfolding p7 by (simp_all add: abs_if split: if_splits)
    from fl_range [OF this] x'(1) have "- (1 / 128) \<le> x'" "x' \<le> 1 / 128"
      unfolding p7 by auto
    with c7 show ?thesis unfolding d' by (simp add: lit_cent abs_if)
  qed
qed

lemma small_step:
  assumes ok: "cursors_ok small_debt small_credit s" and lc: "loop_cond s"
  shows "cursors_ok small_debt small_credit (loop_body s)"
    and "cur_i s + cur_j s < cur_i (loop_body s) + cur_j (loop_body s)"
    and "passes_left (loop_body s) < passes_left s"
proof -
  note cur = cursors_ok_current [OF ok lc]
  have p1: "small_debt (new_debt s) \<or> num_less (Math_abs (new_debt s)) (lit (1 / 100))"
    unfolding new_debt_def cur_transfer_def transfer_def by (rule small_pay(1) [OF cur])
  have p2: "small_credit (new_credit s) \<or> num_less (new_credit s) (lit (1 / 100))"
    unfolding new_credit_def cur_transfer_def transfer_def by (rule small_pay(2) [OF cur])
  have p3: "num_less (Math_abs (new_debt s)) (lit (1 / 100)) \<or>
      num_less (new_credit s) (lit (1 / 100))"
    unfolding new_debt_def new_credit_def cur_transfer_def transfer_def
    by (rule small_pay(3) [OF cur])
  show "cursors_ok small_debt small_credit (loop_body s)"
    using ok lc p1 p2 by (rule cursors_ok_step)
  show adv: "cur_i s + cur_j s < cur_i (loop_body s) + cur_j (loop_body s)"
    using p3 by (auto simp: loop_body_fields)
  have len: "length (debtors (loop_body s)) = length (debtors s)"
    "length (creditors (loop_body s)) = length (creditors s)"
    by (simp_all add: loop_body_fields)
  have ge: "cur_i s \<le> cur_i (loop_body s)" "cur_j s \<le> cur_j (loop_body s)"
    by (simp_all add: loop_body_fields)
  show "passes_left (loop_body s) < passes_left s"
    using lc adv ge unfolding passes_left_def len
    by (auto simp: loop_cond_def len)
qed

lemma small_of_bounded:
  "bounded_number a \<Longrightarrow> is_debtor (p, a) \<Longrightarrow> small_debt a"
  "bounded_number a \<Longrightarrow> is_creditor (p, a) \<Longrightarrow> small_credit a"
  by (cases a; auto simp: bounded_number_def is_debtor_def is_creditor_def small_debt_def
      small_credit_def lit_cent)+

lemma length_working_lists:
  "length (debtors (initial_state bal)) = length (fst (separate bal [] []))"
  "length (creditors (initial_state bal)) = length (snd (separate bal [] []))"
  by (simp_all add: initial_state_def length_sort_cmp split: prod.splits)

lemma bounded_run:
  assumes "\<forall>(p, a) \<in> set bal. bounded_number a"
  shows "\<exists>k \<le> passes_left (initial_state bal).
           match_loop (initial_state bal) = Some ((loop_body ^^ k) (initial_state bal)) \<and>
           (\<forall>n < k. loop_cond ((loop_body ^^ n) (initial_state bal))) \<and>
           \<not> loop_cond ((loop_body ^^ k) (initial_state bal)) \<and>
           (\<forall>n \<le> k. cursors_ok small_debt small_credit ((loop_body ^^ n) (initial_state bal)))"
proof (rule match_loop_measure)
  show "cursors_ok small_debt small_credit (initial_state bal)"
    using assms by (intro cursors_ok_initial) (fastforce intro: small_of_bounded)+
next
  fix u assume "cursors_ok small_debt small_credit u" "loop_cond u"
  then show "cursors_ok small_debt small_credit (loop_body u) \<and>
      passes_left (loop_body u) < passes_left u"
    using small_step(1,3) by blast
qed

text \<open>
  C5 (as amended). For every mapping whose amounts are finite and at most \<open>2^43\<close> in
  magnitude, whether or not they sum to zero, the matching loop terminates after at most
  (number of debtors) + (number of creditors) passes, and every pass advances at least
  one of the two cursors.
\<close>

theorem match_loop_bounded_passes:
  assumes "\<forall>(p, a) \<in> set bal. bounded_number a"
  shows "\<exists>k \<le> length (fst (separate bal [] [])) + length (snd (separate bal [] [])).
           match_loop (initial_state bal) = Some ((loop_body ^^ k) (initial_state bal)) \<and>
           \<not> loop_cond ((loop_body ^^ k) (initial_state bal)) \<and>
           (\<forall>n < k. loop_cond ((loop_body ^^ n) (initial_state bal)) \<and>
              cur_i ((loop_body ^^ n) (initial_state bal)) +
                cur_j ((loop_body ^^ n) (initial_state bal))
              < cur_i ((loop_body ^^ Suc n) (initial_state bal)) +
                cur_j ((loop_body ^^ Suc n) (initial_state bal)))"
proof -
  from bounded_run [OF assms] obtain k where k: "k \<le> passes_left (initial_state bal)"
    "match_loop (initial_state bal) = Some ((loop_body ^^ k) (initial_state bal))"
    "\<forall>n < k. loop_cond ((loop_body ^^ n) (initial_state bal))"
    "\<not> loop_cond ((loop_body ^^ k) (initial_state bal))"
    "\<forall>n \<le> k. cursors_ok small_debt small_credit ((loop_body ^^ n) (initial_state bal))"
    by blast
  have "passes_left (initial_state bal)
      \<le> length (fst (separate bal [] [])) + length (snd (separate bal [] []))"
    by (simp add: passes_left_def length_working_lists cursors_initial_state)
  with k(1) have "k \<le> length (fst (separate bal [] [])) + length (snd (separate bal [] []))"
    by simp
  moreover have "cur_i ((loop_body ^^ n) (initial_state bal)) +
                cur_j ((loop_body ^^ n) (initial_state bal))
              < cur_i ((loop_body ^^ Suc n) (initial_state bal)) +
                cur_j ((loop_body ^^ Suc n) (initial_state bal))" if "n < k" for n
    using small_step(2) [of "(loop_body ^^ n) (initial_state bal)"] k(3,5) that by simp
  ultimately show ?thesis using k(2,3,4) by blast
qed

theorem match_loop_bounded_passes_witness:
  "bounded_number (Fin (- 30)) \<and> bounded_number (Fin 10) \<and> bounded_number (Fin 20) \<and>
   match_loop (initial_state [(''A'', Fin (- 30)), (''B'', Fin 10), (''C'', Fin 20)]) =
     Some ((loop_body ^^ 2) (initial_state [(''A'', Fin (- 30)), (''B'', Fin 10), (''C'', Fin 20)])) \<and>
   (2::nat) \<le>
     length (fst (separate [(''A'', Fin (- 30)), (''B'', Fin 10), (''C'', Fin 20)] [] [])) +
     length (snd (separate [(''A'', Fin (- 30)), (''B'', Fin 10), (''C'', Fin 20)] [] []))"
proof -
  have b: "\<forall>(p, a) \<in> set [(''A'', Fin (- 30)), (''B'', Fin 10), (''C'', Fin 20)].
             bounded_number a"
    by (simp add: bounded_number_def)
  from match_loop_bounded_passes [OF b] obtain k
    where "match_loop (initial_state [(''A'', Fin (- 30)), (''B'', Fin 10), (''C'', Fin 20)]) =
      Some ((loop_body ^^ k) (initial_state [(''A'', Fin (- 30)), (''B'', Fin 10), (''C'', Fin 20)]))"
    by blast
  have "match_loop (initial_state [(''A'', Fin (- 30)), (''B'', Fin 10), (''C'', Fin 20)]) =
     Some ((loop_body ^^ 2) (initial_state [(''A'', Fin (- 30)), (''B'', Fin 10), (''C'', Fin 20)]))"
    by (simp add: loop_eval num_eval numeral_2_eq_2)
  with b show ?thesis
    by (simp add: lit_cent cent_def)
qed

text \<open>
  C5 as stated fails beyond that range. With the debtor at -360288090259011 and the
  creditor at 360288090259011.25 (one of each), the first rounded transfer exceeds the
  debt by 1/16: the first pass advances neither cursor, and the loop is still running
  after two passes; it makes three.
\<close>

theorem match_loop_passes_exceeded:
  "length (debtors (initial_state
     [(''A'', Fin (- 360288090259011)), (''B'', Fin (360288090259011 + 1 / 4))])) = 1 \<and>
   length (creditors (initial_state
     [(''A'', Fin (- 360288090259011)), (''B'', Fin (360288090259011 + 1 / 4))])) = 1 \<and>
   loop_cond (initial_state
     [(''A'', Fin (- 360288090259011)), (''B'', Fin (360288090259011 + 1 / 4))]) \<and>
   cur_i (loop_body (initial_state
     [(''A'', Fin (- 360288090259011)), (''B'', Fin (360288090259011 + 1 / 4))])) = 0 \<and>
   cur_j (loop_body (initial_state
     [(''A'', Fin (- 360288090259011)), (''B'', Fin (360288090259011 + 1 / 4))])) = 0 \<and>
   loop_cond ((loop_body ^^ 2) (initial_state
     [(''A'', Fin (- 360288090259011)), (''B'', Fin (360288090259011 + 1 / 4))])) \<and>
   map_option length (simplifyDebts
     [(''A'', Fin (- 360288090259011)), (''B'', Fin (360288090259011 + 1 / 4))]) = Some 3"
  by (simp add: loop_eval num_eval numeral_2_eq_2)

text \<open>
  C4 (as amended). For every mapping whose amounts are finite and at most \<open>2^43\<close> in
  magnitude, with at least one debtor or one creditor, the engine returns at most
  (number of debtors) + (number of creditors) - 1 settlements.
\<close>

theorem simplifyDebts_count_bounded:
  assumes "\<forall>(p, a) \<in> set bal. bounded_number a"
    and "fst (separate bal [] []) \<noteq> [] \<or> snd (separate bal [] []) \<noteq> []"
  shows "\<exists>ss. simplifyDebts bal = Some ss \<and>
           length ss + 1 \<le> length (fst (separate bal [] [])) + length (snd (separate bal [] []))"
proof -
  from bounded_run [OF assms(1)] obtain k where k: "k \<le> passes_left (initial_state bal)"
    "match_loop (initial_state bal) = Some ((loop_body ^^ k) (initial_state bal))"
    by blast
  have "simplifyDebts bal = Some (settlements ((loop_body ^^ k) (initial_state bal)))"
    by (simp add: simplifyDebts_def k(2))
  moreover have "length (settlements ((loop_body ^^ k) (initial_state bal))) = k"
    by (simp add: length_settlements_funpow cursors_initial_state)
  moreover have "passes_left (initial_state bal) + 1
      \<le> length (fst (separate bal [] [])) + length (snd (separate bal [] []))"
    using assms(2)
    by (auto simp: passes_left_def length_working_lists cursors_initial_state loop_cond_def
        Suc_le_eq)
  ultimately show ?thesis using k(1) by auto
qed

theorem simplifyDebts_count_bounded_witness:
  "bounded_number (Fin (- 30)) \<and> bounded_number (Fin 10) \<and> bounded_number (Fin 20) \<and>
   fst (separate [(''A'', Fin (- 30)), (''B'', Fin 10), (''C'', Fin 20)] [] []) \<noteq> [] \<and>
   simplifyDebts [(''A'', Fin (- 30)), (''B'', Fin 10), (''C'', Fin 20)] =
     Some [\<lparr>sfrom = ''A'', sto = ''C'', samount = Fin 20, currency = ''USD''\<rparr>,
           \<lparr>sfrom = ''A'', sto = ''B'', samount = Fin 10, currency = ''USD''\<rparr>] \<and>
   (2::nat) + 1 \<le>
     length (fst (separate [(''A'', Fin (- 30)), (''B'', Fin 10), (''C'', Fin 20)] [] [])) +
     length (snd (separate [(''A'', Fin (- 30)), (''B'', Fin 10), (''C'', Fin 20)] [] []))"
proof -
  have b: "\<forall>(p, a) \<in> set [(''A'', Fin (- 30)), (''B'', Fin 10), (''C'', Fin 20)].
             bounded_number a"
    by (simp add: bounded_number_def)
  have n: "fst (separate [(''A'', Fin (- 30)), (''B'', Fin 10), (''C'', Fin 20)] [] []) \<noteq> [] \<or>
      snd (separate [(''A'', Fin (- 30)), (''B'', Fin 10), (''C'', Fin 20)] [] []) \<noteq> []"
    by (simp add: lit_cent cent_def)
  have r: "simplifyDebts [(''A'', Fin (- 30)), (''B'', Fin 10), (''C'', Fin 20)] =
     Some [\<lparr>sfrom = ''A'', sto = ''C'', samount = Fin 20, currency = ''USD''\<rparr>,
           \<lparr>sfrom = ''A'', sto = ''B'', samount = Fin 10, currency = ''USD''\<rparr>]"
    by (simp add: loop_eval num_eval)
  from simplifyDebts_count_bounded [OF b n] obtain ss
    where "simplifyDebts [(''A'', Fin (- 30)), (''B'', Fin 10), (''C'', Fin 20)] = Some ss"
      "length ss + 1 \<le>
        length (fst (separate [(''A'', Fin (- 30)), (''B'', Fin 10), (''C'', Fin 20)] [] [])) +
        length (snd (separate [(''A'', Fin (- 30)), (''B'', Fin 10), (''C'', Fin 20)] [] []))"
    by blast
  with r b show ?thesis
    by (simp add: lit_cent cent_def)
qed

text \<open>
  C4 as stated fails beyond that range. With one debtor and one creditor of the same
  magnitude 360344851376093 the rounded transfer is 1/16 short of the amount, neither
  cursor advances, and a second settlement follows: two settlements, where the bound is one.
\<close>

theorem simplifyDebts_count_exceeded:
  "map_option length
     (simplifyDebts [(''A'', Fin (- 360344851376093)), (''B'', Fin 360344851376093)]) = Some 2 \<and>
   length (fst (separate
     [(''A'', Fin (- 360344851376093)), (''B'', Fin 360344851376093)] [] [])) = 1 \<and>
   length (snd (separate
     [(''A'', Fin (- 360344851376093)), (''B'', Fin 360344851376093)] [] [])) = 1"
  by (simp add: loop_eval num_eval)

section \<open>The settlements applied to the balances\<close>

lemma distinct_map_insort_cmp:
  "distinct (map f (insort_cmp cmp x ys)) \<longleftrightarrow> f x \<notin> f ` set ys \<and> distinct (map f ys)"
  by (induction ys) (auto simp: set_insort_cmp)

lemma distinct_map_sort_cmp: "distinct (map f (sort_cmp cmp xs)) = distinct (map f xs)"
proof (induction xs)
  case Nil
  then show ?case by (simp add: sort_cmp_def)
next
  case (Cons x xs)
  have "sort_cmp cmp (x # xs) = insort_cmp cmp x (sort_cmp cmp xs)"
    by (simp add: sort_cmp_def)
  with Cons show ?case
    by (simp add: distinct_map_insort_cmp set_sort_cmp)
qed

lemma map_of_apply_settlement:
  "map_of (apply_settlement bal x) p =
     map_option (\<lambda>a. if p = sto x
                      then num_sub (if p = sfrom x then num_add a (samount x) else a) (samount x)
                      else if p = sfrom x then num_add a (samount x) else a)
       (map_of bal p)"
  unfolding apply_settlement_def by (induction bal) (auto simp: Let_def)

lemma apply_settlements_snoc:
  "apply_settlements bal (ss @ [x]) = apply_settlement (apply_settlements bal ss) x"
  by (simp add: apply_settlements_def)

lemma debtors_creditors_disjoint:
  assumes "distinct (map fst bal)"
  shows "fst ` {pa \<in> set bal. is_debtor pa} \<inter> fst ` {pa \<in> set bal. is_creditor pa} = {}"
proof (rule ccontr)
  assume "\<not> ?thesis"
  then obtain p a b where "(p, a) \<in> set bal" "is_debtor (p, a)"
    "(p, b) \<in> set bal" "is_creditor (p, b)"
    by auto
  moreover from this assms have "a = b"
    by (meson eq_key_imp_eq_value)
  ultimately show False
    using not_debtor_and_creditor by blast
qed

lemma persons_initial_state:
  "set (map person (debtors (initial_state bal))) = fst ` {pa \<in> set bal. is_debtor pa}"
  "set (map person (creditors (initial_state bal))) = fst ` {pa \<in> set bal. is_creditor pa}"
  by (auto simp: debtors_initial_state creditors_initial_state set_sort_cmp mk_entry_def image_iff)

lemma tracks_initial:
  assumes "distinct (map fst bal)"
  shows "tracks bal (initial_state bal)"
proof -
  have dd: "distinct (map person (debtors (initial_state bal)))"
    using assms
    by (simp add: debtors_initial_state distinct_map_sort_cmp mk_entry_def comp_def
        distinct_map_filter)
  have dc: "distinct (map person (creditors (initial_state bal)))"
    using assms
    by (simp add: creditors_initial_state distinct_map_sort_cmp mk_entry_def comp_def
        distinct_map_filter)
  have disj: "set (map person (debtors (initial_state bal))) \<inter>
      set (map person (creditors (initial_state bal))) = {}"
    unfolding persons_initial_state using assms by (rule debtors_creditors_disjoint)
  have look: "map_of bal (person e) = Some (amount e)"
    if "e \<in> set (debtors (initial_state bal)) \<union> set (creditors (initial_state bal))" for e
  proof -
    from that obtain pa where "pa \<in> set bal" "e = mk_entry pa"
      by (auto simp: debtors_initial_state creditors_initial_state set_sort_cmp)
    then show ?thesis
      using assms map_of_is_SomeI [of bal "fst pa" "snd pa"] by (simp add: mk_entry_def)
  qed
  show ?thesis
    unfolding tracks_def
    using dd dc disj look
    by (simp add: cursors_initial_state apply_settlements_def)
qed

lemma tracks_step:
  assumes tr: "tracks bal s" and lc: "loop_cond s"
  shows "tracks bal (loop_body s)"
proof -
  define x where "x = \<lparr>sfrom = person (cur_debtor s), sto = person (cur_creditor s),
       samount = cur_transfer s, currency = ''USD''\<rparr>"
  have i: "cur_i s < length (debtors s)" and j: "cur_j s < length (creditors s)"
    using lc by (simp_all add: loop_cond_def)
  have dist: "distinct (map person (debtors s) @ map person (creditors s))"
    using tr by (simp add: tracks_def)
  have pd: "person (debtors s ! k) \<noteq> person (cur_creditor s)" if "k < length (debtors s)" for k
    using dist that j unfolding cur_creditor_def
    by (metis (no_types, lifting) IntI distinct_append empty_iff length_map nth_map nth_mem)
  have pc: "person (creditors s ! k) \<noteq> person (cur_debtor s)" if "k < length (creditors s)" for k
    using dist that i unfolding cur_debtor_def
    by (metis (no_types, lifting) IntI distinct_append empty_iff length_map nth_map nth_mem)
  have pdd: "person (debtors s ! k) = person (cur_debtor s) \<longleftrightarrow> k = cur_i s"
    if "k < length (debtors s)" for k
    using dist that i unfolding cur_debtor_def
    by (metis distinct_append distinct_conv_nth length_map nth_map)
  have pcc: "person (creditors s ! k) = person (cur_creditor s) \<longleftrightarrow> k = cur_j s"
    if "k < length (creditors s)" for k
    using dist that j unfolding cur_creditor_def
    by (metis distinct_append distinct_conv_nth length_map nth_map)
  have app: "map_of (apply_settlements bal (settlements (loop_body s))) p =
      map_option (\<lambda>a. if p = person (cur_creditor s)
           then num_sub (if p = person (cur_debtor s) then num_add a (cur_transfer s) else a)
                  (cur_transfer s)
           else if p = person (cur_debtor s) then num_add a (cur_transfer s) else a)
        (map_of (apply_settlements bal (settlements s)) p)" for p
    by (simp add: loop_body_fields apply_settlements_snoc map_of_apply_settlement cong: if_cong)
  have D: "map_of (apply_settlements bal (settlements (loop_body s)))
      (person (debtors (loop_body s) ! k)) = Some (amount (debtors (loop_body s) ! k))"
    if "k < length (debtors (loop_body s))" for k
  proof -
    from that have k: "k < length (debtors s)" by (simp add: loop_body_fields)
    have old: "map_of (apply_settlements bal (settlements s)) (person (debtors s ! k)) =
        Some (amount (debtors s ! k))"
      using tr k by (simp add: tracks_def)
    have pk: "person (debtors (loop_body s) ! k) = person (debtors s ! k)"
      and ak: "amount (debtors (loop_body s) ! k) =
        (if k = cur_i s then new_debt s else amount (debtors s ! k))"
      using k i by (auto simp: loop_body_fields nth_list_update cur_debtor_def)
    show ?thesis
      unfolding app pk ak using old pd [OF k] pdd [OF k] pd [OF i]
      by (simp add: new_debt_def cur_debtor_def)
  qed
  have C: "map_of (apply_settlements bal (settlements (loop_body s)))
      (person (creditors (loop_body s) ! k)) = Some (amount (creditors (loop_body s) ! k))"
    if "k < length (creditors (loop_body s))" for k
  proof -
    from that have k: "k < length (creditors s)" by (simp add: loop_body_fields)
    have old: "map_of (apply_settlements bal (settlements s)) (person (creditors s ! k)) =
        Some (amount (creditors s ! k))"
      using tr k by (simp add: tracks_def)
    have pk: "person (creditors (loop_body s) ! k) = person (creditors s ! k)"
      and ak: "amount (creditors (loop_body s) ! k) =
        (if k = cur_j s then new_credit s else amount (creditors s ! k))"
      using k j by (auto simp: loop_body_fields nth_list_update cur_creditor_def)
    show ?thesis
      unfolding app pk ak using old pc [OF k] pcc [OF k] pc [OF j]
      by (simp add: new_credit_def cur_creditor_def)
  qed
  have SD: "num_less (Math_abs (amount (debtors (loop_body s) ! k))) (lit (1 / 100))"
    if "k < cur_i (loop_body s)" for k
  proof (cases "k = cur_i s")
    case True
    with that have "num_less (Math_abs (new_debt s)) (lit (1 / 100))"
      by (auto simp: loop_body_fields split: if_splits)
    with True i show ?thesis by (simp add: loop_body_fields)
  next
    case False
    with that have "k < cur_i s" by (auto simp: loop_body_fields split: if_splits)
    with tr False show ?thesis by (simp add: tracks_def loop_body_fields)
  qed
  have SC: "num_less (amount (creditors (loop_body s) ! k)) (lit (1 / 100))"
    if "k < cur_j (loop_body s)" for k
  proof (cases "k = cur_j s")
    case True
    with that have "num_less (new_credit s) (lit (1 / 100))"
      by (auto simp: loop_body_fields split: if_splits)
    with True j show ?thesis by (simp add: loop_body_fields)
  next
    case False
    with that have "k < cur_j s" by (auto simp: loop_body_fields split: if_splits)
    with tr False show ?thesis by (simp add: tracks_def loop_body_fields)
  qed
  have "distinct (map person (debtors (loop_body s)) @ map person (creditors (loop_body s)))"
    using dist by (simp only: persons_loop_body [OF lc])
  moreover have "cur_i (loop_body s) \<le> length (debtors (loop_body s))"
    "cur_j (loop_body s) \<le> length (creditors (loop_body s))"
    using i j by (simp_all add: loop_body_fields)
  ultimately show ?thesis
    unfolding tracks_def using D C SD SC by blast
qed

lemma rnd_abs_error:
  assumes "\<bar>x\<bar> \<le> 2 ^ 43"
  shows "\<bar>rnd x - x\<bar> \<le> 1 / 2 ^ 10"
proof (cases "x = 0")
  case True
  then show ?thesis by (simp add: rnd_zero)
next
  case False
  have "\<bar>x\<bar> \<le> 2 powi 43" using assms by simp
  from expo_le [OF False this] have "max (expo x) (- 1022) - 52 \<le> - 9" by simp
  then have "ulp x \<le> 2 powi (- 9)" unfolding ulp_def by (rule powi_two_mono)
  moreover have "(2::rat) powi (- 9) = 1 / 2 ^ 9" by (simp add: power_int_minus_divide)
  ultimately have "ulp x / 2 \<le> 1 / 2 ^ 10" by simp
  with rnd_near [of x] show ?thesis by linarith
qed

lemma fl_abs_error:
  assumes "\<bar>x\<bar> \<le> 2 ^ 43"
  shows "\<exists>y. fl x = Fin y \<and> \<bar>y - x\<bar> \<le> 1 / 2 ^ 10"
proof -
  have "- (2 powi 43) \<le> x" "x \<le> 2 powi 43" using assms by (simp_all add: abs_le_iff)
  from fl_range [OF this] obtain y where y: "fl x = Fin y" by auto
  from fl_Fin_rnd [OF y] rnd_abs_error [OF assms] y show ?thesis by simp
qed

lemma pay_sum:
  assumes d: "small_debt d" and c: "small_credit c"
  shows "\<exists>x y x' y'. d = Fin x \<and> c = Fin y \<and>
           num_add d (round2 (Math_min (Math_abs d) c)) = Fin x' \<and>
           num_sub c (round2 (Math_min (Math_abs d) c)) = Fin y' \<and>
           \<bar>(x' + y') - (x + y)\<bar> \<le> 1 / 2 ^ 9 \<and> - (1 / 128) \<le> y' \<and> x' \<le> 1 / 128"
proof -
  from d obtain x where x: "d = Fin x" "- (2 ^ 43) \<le> x" "x \<le> - cent"
    by (cases d) (auto simp: small_debt_def)
  from c obtain y where y: "c = Fin y" "cent \<le> y" "y \<le> 2 ^ 43"
    by (cases c) (auto simp: small_credit_def)
  define v where "v = (if y < - x then y else - x)"
  have xneg: "\<bar>x\<bar> = - x" using x(3) cent_bounds(3) by simp
  have m: "Math_min (Math_abs d) c = Fin v"
    by (simp add: x(1) y(1) xneg v_def)
  have v: "cent \<le> v" "v \<le> 2 ^ 43" "v \<le> - x" "v \<le> y"
    using x y by (auto simp: v_def)
  from round2_near [OF v(1,2)] obtain a
    where a: "round2 (Fin v) = Fin a" "\<bar>a - v\<bar> \<le> 1 / 128" "0 < a" by blast
  have bx: "- (2 ^ 43) \<le> x + a" "x + a \<le> 1 / 128"
    using a(2,3) x(2) v(3) by (simp_all add: abs_if split: if_splits)
  have by': "- (1 / 128) \<le> y - a" "y - a \<le> 2 ^ 43"
    using a(2,3) y(3) v(4) by (simp_all add: abs_if split: if_splits)
  have "\<bar>x + a\<bar> \<le> 2 ^ 43" using bx by (simp add: abs_le_iff)
  from fl_abs_error [OF this] obtain x' where x': "fl (x + a) = Fin x'"
    "\<bar>x' - (x + a)\<bar> \<le> 1 / 2 ^ 10" by blast
  have "\<bar>y - a\<bar> \<le> 2 ^ 43" using by' by (simp add: abs_le_iff)
  from fl_abs_error [OF this] obtain y' where y': "fl (y - a) = Fin y'"
    "\<bar>y' - (y - a)\<bar> \<le> 1 / 2 ^ 10" by blast
  have p7: "(2::rat) powi (- 7) = 1 / 128" by (simp add: power_int_minus_divide)
  have p43: "(2::rat) powi 43 = 2 ^ 43" by simp
  have "- (2 powi 43) \<le> x + a" "x + a \<le> 2 powi (- 7)" using bx unfolding p7 p43 .
  from fl_range [OF this] x'(1) have xu: "x' \<le> 1 / 128" unfolding p7 by auto
  have "- (2 powi (- 7)) \<le> y - a" "y - a \<le> 2 powi 43" using by' unfolding p7 p43 .
  from fl_range [OF this] y'(1) have yl: "- (1 / 128) \<le> y'" unfolding p7 by auto
  have d': "num_add d (round2 (Math_min (Math_abs d) c)) = Fin x'"
    unfolding m a(1) by (simp add: x(1) x'(1))
  have c': "num_sub c (round2 (Math_min (Math_abs d) c)) = Fin y'"
    unfolding m a(1) by (simp add: y(1) y'(1) num_sub_def)
  have "\<bar>(x' + y') - (x + y)\<bar> \<le> 1 / 2 ^ 9"
  proof -
    have e: "(1::rat) / 2 ^ 10 = 1 / 1024" "(1::rat) / 2 ^ 9 = 1 / 512" by simp_all
    from x'(2) y'(2) show ?thesis unfolding e by (simp only: abs_le_iff) linarith
  qed
  with x(1) y(1) d' c' xu yl show ?thesis by blast
qed


lemma sum_list_update_rat:
  fixes xs :: "rat list"
  shows "k < length xs \<Longrightarrow> sum_list (xs[k := x]) = sum_list xs + x - xs ! k"
  by (induction xs arbitrary: k) (auto split: nat.splits)

lemma work_sum_step:
  assumes "loop_cond s"
  shows "work_sum (loop_body s) =
     work_sum s + (value_of (new_debt s) - value_of (amount (cur_debtor s))) +
       (value_of (new_credit s) - value_of (amount (cur_creditor s)))"
proof -
  have i: "cur_i s < length (debtors s)" and j: "cur_j s < length (creditors s)"
    using assms by (simp_all add: loop_cond_def)
  have "sum_list (map (\<lambda>e. value_of (amount e)) (debtors (loop_body s))) =
      sum_list (map (\<lambda>e. value_of (amount e)) (debtors s)) + value_of (new_debt s) -
        value_of (amount (cur_debtor s))"
    using i by (simp add: loop_body_fields map_update sum_list_update_rat cur_debtor_def)
  moreover have "sum_list (map (\<lambda>e. value_of (amount e)) (creditors (loop_body s))) =
      sum_list (map (\<lambda>e. value_of (amount e)) (creditors s)) + value_of (new_credit s) -
        value_of (amount (cur_creditor s))"
    using j by (simp add: loop_body_fields map_update sum_list_update_rat cur_creditor_def)
  ultimately show ?thesis unfolding work_sum_def by linarith
qed

lemma conserving_step:
  assumes ok: "cursors_ok small_debt small_credit s" and lc: "loop_cond s"
    and cs: "conserving T s"
  shows "conserving T (loop_body s)"
proof -
  note cur = cursors_ok_current [OF ok lc]
  from pay_sum [OF cur] obtain x y x' y'
    where v: "amount (cur_debtor s) = Fin x" "amount (cur_creditor s) = Fin y"
      "new_debt s = Fin x'" "new_credit s = Fin y'"
      "\<bar>(x' + y') - (x + y)\<bar> \<le> 1 / 2 ^ 9" "- (1 / 128) \<le> y'"
    unfolding new_debt_def new_credit_def cur_transfer_def transfer_def by blast
  have j: "cur_j s < length (creditors s)" using lc by (simp add: loop_cond_def)
  have c7: "1 / 128 < cent" using cent_bounds(2) by (simp add: power_int_minus_divide)
  have SC: "num_less (Math_abs (amount (creditors (loop_body s) ! k))) (lit (1 / 100))"
    if "k < cur_j (loop_body s)" for k
  proof (cases "k = cur_j s")
    case True
    with that have "num_less (new_credit s) (lit (1 / 100))"
      by (auto simp: loop_body_fields split: if_splits)
    then have "y' < cent" by (simp add: v(4) lit_cent)
    with v(6) c7 have "\<bar>y'\<bar> < cent" by (simp add: abs_less_iff)
    with True j show ?thesis by (simp add: loop_body_fields v(4) lit_cent)
  next
    case False
    with that have "k < cur_j s" by (auto simp: loop_body_fields split: if_splits)
    with cs False show ?thesis by (simp add: conserving_def loop_body_fields)
  qed
  have "work_sum (loop_body s) = work_sum s + (x' - x) + (y' - y)"
    by (simp add: work_sum_step [OF lc] v value_of_def)
  moreover have "\<bar>work_sum s - T\<bar> \<le> of_nat (length (settlements s)) / 2 ^ 9"
    using cs by (simp add: conserving_def)
  moreover have "(of_nat (length (settlements (loop_body s))) :: rat) / 2 ^ 9 =
      of_nat (length (settlements s)) / 2 ^ 9 + 1 / 2 ^ 9"
    by (simp add: loop_body_fields add_divide_distrib)
  ultimately have "\<bar>work_sum (loop_body s) - T\<bar>
      \<le> of_nat (length (settlements (loop_body s))) / 2 ^ 9"
    using v(5) by (simp only: abs_le_iff) linarith
  with SC show ?thesis unfolding conserving_def by blast
qed

lemma sum_list_map_insort_cmp:
  fixes f :: "'a \<Rightarrow> rat"
  shows "sum_list (map f (insort_cmp cmp x ys)) = f x + sum_list (map f ys)"
  by (induction ys) auto

lemma sum_list_map_sort_cmp:
  fixes f :: "'a \<Rightarrow> rat"
  shows "sum_list (map f (sort_cmp cmp xs)) = sum_list (map f xs)"
  unfolding sort_cmp_def by (induction xs) (auto simp: sum_list_map_insort_cmp)

lemma sum_list_three_way:
  fixes g :: "string \<times> number \<Rightarrow> rat"
  shows "sum_list (map g bal) =
     sum_list (map g (filter is_debtor bal)) + sum_list (map g (filter is_creditor bal)) +
       sum_list (map g (filter (\<lambda>pa. \<not> is_debtor pa \<and> \<not> is_creditor pa) bal))"
proof (induction bal)
  case Nil
  then show ?case by simp
next
  case (Cons pa bal)
  have "\<not> (is_debtor pa \<and> is_creditor pa)"
    using not_debtor_and_creditor [of "fst pa" "snd pa"] by simp
  with Cons show ?case by auto
qed

lemma length_three_way:
  "length bal =
     length (filter is_debtor bal) + length (filter is_creditor bal) +
       length (filter (\<lambda>pa. \<not> is_debtor pa \<and> \<not> is_creditor pa) bal)"
proof (induction bal)
  case Nil
  then show ?case by simp
next
  case (Cons pa bal)
  have "\<not> (is_debtor pa \<and> is_creditor pa)"
    using not_debtor_and_creditor [of "fst pa" "snd pa"] by simp
  with Cons show ?case by auto
qed

lemma work_sum_initial:
  "balance_sum bal = work_sum (initial_state bal) +
     sum_list (map (\<lambda>pa. value_of (snd pa))
       (filter (\<lambda>pa. \<not> is_debtor pa \<and> \<not> is_creditor pa) bal))"
  unfolding balance_sum_def work_sum_def debtors_initial_state creditors_initial_state
    sum_list_map_sort_cmp
  by (subst sum_list_three_way) (simp add: comp_def mk_entry_def)

lemma excluded_small:
  assumes "bounded_number a" "\<not> is_debtor (p, a)" "\<not> is_creditor (p, a)"
  shows "\<exists>x. a = Fin x \<and> \<bar>x\<bar> \<le> cent"
  using assms
  by (cases a) (auto simp: bounded_number_def is_debtor_def is_creditor_def lit_cent abs_le_iff)

lemma sum_abs_bound:
  fixes xs :: "rat list"
  assumes "\<forall>x \<in> set xs. \<bar>x\<bar> \<le> c"
  shows "\<bar>sum_list xs\<bar> \<le> of_nat (length xs) * c"
  using assms
proof (induction xs)
  case Nil
  then show ?case by simp
next
  case (Cons x xs)
  then have "\<bar>sum_list xs\<bar> \<le> of_nat (length xs) * c" "\<bar>x\<bar> \<le> c" by simp_all
  then show ?case by (simp add: algebra_simps abs_le_iff)
qed

lemma sum_lower_bound:
  fixes xs :: "rat list"
  assumes "\<forall>x \<in> set xs. - c \<le> x"
  shows "- (of_nat (length xs) * c) \<le> sum_list xs"
  using assms
proof (induction xs)
  case Nil
  then show ?case by simp
next
  case (Cons x xs)
  then have "- (of_nat (length xs) * c) \<le> sum_list xs" "- c \<le> x" by simp_all
  then show ?case by (simp add: algebra_simps)
qed

lemma elem_le_sum:
  fixes xs :: "rat list"
  assumes "\<forall>x \<in> set xs. - c \<le> x" "y \<in> set xs"
  shows "y \<le> sum_list xs + of_nat (length xs) * c - c"
  using assms
proof (induction xs)
  case Nil
  then show ?case by simp
next
  case (Cons x xs)
  from Cons.prems have lo: "- c \<le> x" "\<forall>x \<in> set xs. - c \<le> x" by simp_all
  show ?case
  proof (cases "y \<in> set xs")
    case True
    from Cons.IH [OF lo(2) True] lo(1) show ?thesis by (simp add: algebra_simps)
  next
    case False
    with Cons.prems have "y = x" by simp
    with sum_lower_bound [OF lo(2)] show ?thesis by (simp add: algebra_simps)
  qed
qed

lemma elem_ge_sum:
  fixes xs :: "rat list"
  assumes "\<forall>x \<in> set xs. x \<le> c" "y \<in> set xs"
  shows "sum_list xs - of_nat (length xs) * c + c \<le> y"
proof -
  have "\<forall>x \<in> set (map uminus xs). - c \<le> x" using assms(1) by simp
  moreover have "- y \<in> set (map uminus xs)" using assms(2) by simp
  ultimately have "- y \<le> sum_list (map uminus xs) + of_nat (length (map uminus xs)) * c - c"
    by (rule elem_le_sum)
  moreover have "sum_list (map uminus xs) = - sum_list xs"
    by (induction xs) simp_all
  ultimately show ?thesis by simp
qed

lemma residual_arith:
  fixes dv cv :: "rat list"
  assumes d: "\<forall>x \<in> set dv. x \<le> c" and cr: "\<forall>y \<in> set cv. - c \<le> y"
    and one: "(\<forall>x \<in> set dv. - c \<le> x) \<or> (\<forall>y \<in> set cv. y \<le> c)"
    and w: "\<bar>sum_list dv + sum_list cv - W\<bar> \<le> e"
    and c: "0 \<le> c"
    and z: "z \<in> set dv \<union> set cv"
  shows "\<bar>z\<bar> \<le> \<bar>W\<bar> + of_nat (length dv) * c + of_nat (length cv) * c + e"
proof -
  have nd: "0 \<le> of_nat (length dv) * c" and nc: "0 \<le> of_nat (length cv) * c"
    using c by simp_all
  have e: "0 \<le> e" using w by linarith
  have ld: "c \<le> of_nat (length dv) * c" if "z \<in> set dv"
  proof -
    from that have "(1::rat) \<le> of_nat (length dv)"
      using length_pos_if_in_set [OF that] by (simp add: Suc_le_eq)
    then show ?thesis using c mult_right_mono [of 1 "of_nat (length dv)" c] by simp
  qed
  have lc: "c \<le> of_nat (length cv) * c" if "z \<in> set cv"
  proof -
    from that have "(1::rat) \<le> of_nat (length cv)"
      using length_pos_if_in_set [OF that] by (simp add: Suc_le_eq)
    then show ?thesis using c mult_right_mono [of 1 "of_nat (length cv)" c] by simp
  qed
  from one show ?thesis
  proof
    assume lo: "\<forall>x \<in> set dv. - c \<le> x"
    with d have "\<forall>x \<in> set dv. \<bar>x\<bar> \<le> c" by (auto simp: abs_le_iff)
    from sum_abs_bound [OF this] have sd: "\<bar>sum_list dv\<bar> \<le> of_nat (length dv) * c" .
    from z show ?thesis
    proof
      assume zd: "z \<in> set dv"
      with d lo have "\<bar>z\<bar> \<le> c" by (auto simp: abs_le_iff)
      with ld [OF zd] nc e show ?thesis by linarith
    next
      assume zc: "z \<in> set cv"
      from elem_le_sum [OF cr zc] have "z \<le> sum_list cv + of_nat (length cv) * c - c" .
      moreover from cr zc have "- c \<le> z" by simp
      ultimately show ?thesis using sd w lc [OF zc] nd e c by (simp only: abs_le_iff) linarith
    qed
  next
    assume hi: "\<forall>y \<in> set cv. y \<le> c"
    with cr have "\<forall>y \<in> set cv. \<bar>y\<bar> \<le> c" by (auto simp: abs_le_iff)
    from sum_abs_bound [OF this] have sc: "\<bar>sum_list cv\<bar> \<le> of_nat (length cv) * c" .
    from z show ?thesis
    proof
      assume zc: "z \<in> set cv"
      with cr hi have "\<bar>z\<bar> \<le> c" by (auto simp: abs_le_iff)
      with lc [OF zc] nd e show ?thesis by linarith
    next
      assume zd: "z \<in> set dv"
      from elem_ge_sum [OF d zd] have "sum_list dv - of_nat (length dv) * c + c \<le> z" .
      moreover from d zd have "z \<le> c" by simp
      ultimately show ?thesis using sc w ld [OF zd] nc e c by (simp only: abs_le_iff) linarith
    qed
  qed
qed

lemma map_of_apply_settlements_other:
  assumes "\<forall>x \<in> set ss. sfrom x \<noteq> p \<and> sto x \<noteq> p"
  shows "map_of (apply_settlements bal ss) p = map_of bal p"
  using assms
proof (induction ss rule: rev_induct)
  case Nil
  then show ?case by (simp add: apply_settlements_def)
next
  case (snoc x ss)
  then show ?case
    by (cases "map_of bal p") (auto simp: apply_settlements_snoc map_of_apply_settlement)
qed

lemma entries_at_exit:
  assumes ok: "cursors_ok small_debt small_credit t" and tr: "tracks bal t"
    and cs: "conserving W t"
  shows "\<forall>e \<in> set (debtors t). \<exists>x. amount e = Fin x \<and> x \<le> cent \<and>
           (cur_i t = length (debtors t) \<longrightarrow> - cent \<le> x)"
    and "\<forall>e \<in> set (creditors t). \<exists>y. amount e = Fin y \<and> - cent \<le> y \<and>
           (cur_j t = length (creditors t) \<longrightarrow> y \<le> cent)"
proof -
  show "\<forall>e \<in> set (debtors t). \<exists>x. amount e = Fin x \<and> x \<le> cent \<and>
           (cur_i t = length (debtors t) \<longrightarrow> - cent \<le> x)"
  proof
    fix e assume "e \<in> set (debtors t)"
    then obtain k where k: "k < length (debtors t)" "e = debtors t ! k"
      by (auto simp: in_set_conv_nth)
    show "\<exists>x. amount e = Fin x \<and> x \<le> cent \<and> (cur_i t = length (debtors t) \<longrightarrow> - cent \<le> x)"
    proof (cases "k < cur_i t")
      case True
      with tr have "num_less (Math_abs (amount e)) (lit (1 / 100))"
        by (simp add: tracks_def k(2))
      then show ?thesis
        by (cases "amount e") (auto simp: lit_cent abs_less_iff)
    next
      case False
      with ok k have "small_debt (amount e)" by (simp add: cursors_ok_def)
      then obtain x where "amount e = Fin x" "x \<le> - cent"
        by (cases "amount e") (auto simp: small_debt_def)
      with False k(1) cent_bounds(3) show ?thesis by auto
    qed
  qed
  show "\<forall>e \<in> set (creditors t). \<exists>y. amount e = Fin y \<and> - cent \<le> y \<and>
           (cur_j t = length (creditors t) \<longrightarrow> y \<le> cent)"
  proof
    fix e assume "e \<in> set (creditors t)"
    then obtain k where k: "k < length (creditors t)" "e = creditors t ! k"
      by (auto simp: in_set_conv_nth)
    show "\<exists>y. amount e = Fin y \<and> - cent \<le> y \<and> (cur_j t = length (creditors t) \<longrightarrow> y \<le> cent)"
    proof (cases "k < cur_j t")
      case True
      with cs have "num_less (Math_abs (amount e)) (lit (1 / 100))"
        by (simp add: conserving_def k(2))
      then show ?thesis
        by (cases "amount e") (auto simp: lit_cent abs_less_iff)
    next
      case False
      with ok k have "small_credit (amount e)" by (simp add: cursors_ok_def)
      then obtain y where "amount e = Fin y" "cent \<le> y"
        by (cases "amount e") (auto simp: small_credit_def)
      with False k(1) cent_bounds(3) show ?thesis by auto
    qed
  qed
qed

lemma residual_constant: "cent + 1 / 2 ^ 9 \<le> 3 / 250"
  by (simp add: cent_def)

lemma passes_left_initial:
  "passes_left (initial_state bal)
     \<le> length (filter is_debtor bal) + length (filter is_creditor bal)"
  by (simp add: passes_left_def debtors_initial_state creditors_initial_state length_sort_cmp
      cursors_initial_state)

lemma settled_run:
  assumes dist: "distinct (map fst bal)" and bnd: "\<forall>(p, a) \<in> set bal. bounded_number a"
  shows "\<exists>t. match_loop (initial_state bal) = Some t \<and> \<not> loop_cond t \<and>
           cursors_ok small_debt small_credit t \<and> tracks_all bal t \<and>
           conserving (work_sum (initial_state bal)) t \<and>
           payers_payees (fst ` {pa \<in> set bal. is_debtor pa})
             (fst ` {pa \<in> set bal. is_creditor pa}) t \<and>
           length (settlements t) \<le> length (filter is_debtor bal) + length (filter is_creditor bal)"
proof -
  define D where "D = fst ` {pa \<in> set bal. is_debtor pa}"
  define C where "C = fst ` {pa \<in> set bal. is_creditor pa}"
  define W where "W = work_sum (initial_state bal)"
  define I where "I = (\<lambda>s. cursors_ok small_debt small_credit s \<and> tracks_all bal s \<and>
    conserving W s \<and> payers_payees D C s)"
  have i1: "cursors_ok small_debt small_credit (initial_state bal)"
    using bnd by (intro cursors_ok_initial) (fastforce intro: small_of_bounded)+
  have i2: "tracks_all bal (initial_state bal)"
    using tracks_initial [OF dist] by (simp add: tracks_all_def)
  have i3: "conserving W (initial_state bal)"
    by (simp add: conserving_def W_def cursors_initial_state)
  have i4: "payers_payees D C (initial_state bal)"
    unfolding payers_payees_def debtors_initial_state creditors_initial_state
      cursors_initial_state
    by (auto simp: set_sort_cmp mk_entry_def D_def C_def image_iff)
  have init: "I (initial_state bal)"
    unfolding I_def using i1 i2 i3 i4 by blast
  have step: "I (loop_body u) \<and> passes_left (loop_body u) < passes_left u"
    if "I u" "loop_cond u" for u
  proof -
    from that(1) have u: "cursors_ok small_debt small_credit u" "tracks_all bal u"
      "conserving W u" "payers_payees D C u"
      by (simp_all add: I_def)
    have "tracks_all bal (loop_body u)"
      using u(2) that(2) tracks_step [of bal u] persons_loop_body [of u]
      by (simp add: tracks_all_def)
    then show ?thesis
      unfolding I_def
      using small_step(1,3) [OF u(1) that(2)] conserving_step [OF u(1) that(2) u(3)]
        payers_payees_step [OF u(4) that(2)]
      by blast
  qed
  from match_loop_measure [where I = I and m = passes_left and s = "initial_state bal",
      OF step init]
  obtain k where k: "k \<le> passes_left (initial_state bal)"
    "match_loop (initial_state bal) = Some ((loop_body ^^ k) (initial_state bal))"
    "\<not> loop_cond ((loop_body ^^ k) (initial_state bal))"
    "I ((loop_body ^^ k) (initial_state bal))"
    by blast
  have "length (settlements ((loop_body ^^ k) (initial_state bal))) = k"
    by (simp add: length_settlements_funpow cursors_initial_state)
  with k(1) passes_left_initial [of bal]
  have "length (settlements ((loop_body ^^ k) (initial_state bal)))
      \<le> length (filter is_debtor bal) + length (filter is_creditor bal)"
    by linarith
  with k(2,3,4) show ?thesis
    unfolding I_def D_def C_def W_def by blast
qed

text \<open>
  C1 (as amended). For every mapping with distinct keys whose amounts are finite and at most
  \<open>2^43\<close> in magnitude, the engine returns, and applying every emitted settlement to a copy
  of the input balances leaves one whole side of the partition within the epsilon of zero
  (every debtor, or else every creditor, ends with a balance of magnitude below \<open>0.01\<close>)
  and leaves the balance of every participant within \<open>\<bar>T\<bar> + 0.012 n\<close> of zero, where \<open>T\<close>
  is the exact sum of the input balances and \<open>n\<close> the number of participants. When the
  balances sum to zero, every balance ends within \<open>0.012 n\<close> of zero.
\<close>

theorem simplifyDebts_residuals:
  assumes dist: "distinct (map fst bal)" and bnd: "\<forall>(p, a) \<in> set bal. bounded_number a"
  shows "\<exists>ss. simplifyDebts bal = Some ss \<and>
           (settled_debtors bal ss \<or> settled_creditors bal ss) \<and>
           residuals_within (residual_bound bal) bal ss"
proof -
  define W where "W = work_sum (initial_state bal)"
  define D where "D = fst ` {pa \<in> set bal. is_debtor pa}"
  define C where "C = fst ` {pa \<in> set bal. is_creditor pa}"
  define excl where "excl = filter (\<lambda>pa. \<not> is_debtor pa \<and> \<not> is_creditor pa) bal"
  from settled_run [OF dist bnd] obtain t
    where t: "match_loop (initial_state bal) = Some t" and ex: "\<not> loop_cond t"
      and ok: "cursors_ok small_debt small_credit t" and ta: "tracks_all bal t"
      and cs: "conserving W t" and pp: "payers_payees D C t"
      and len: "length (settlements t)
        \<le> length (filter is_debtor bal) + length (filter is_creditor bal)"
    unfolding W_def D_def C_def by blast
  define ss where "ss = settlements t"
  have run: "simplifyDebts bal = Some ss"
    by (simp add: simplifyDebts_def t ss_def)
  from ta have tr: "tracks bal t"
    and pd: "map person (debtors t) = map person (debtors (initial_state bal))"
    and pc: "map person (creditors t) = map person (creditors (initial_state bal))"
    by (simp_all add: tracks_all_def)
  define dv where "dv = map (\<lambda>e. value_of (amount e)) (debtors t)"
  define cv where "cv = map (\<lambda>e. value_of (amount e)) (creditors t)"
  note ent = entries_at_exit [OF ok tr cs]
  have side: "cur_i t = length (debtors t) \<or> cur_j t = length (creditors t)"
    using ex tr by (auto simp: loop_cond_def tracks_def)
  have d: "\<forall>x \<in> set dv. x \<le> cent"
    using ent(1) by (fastforce simp: dv_def value_of_def)
  have cr: "\<forall>y \<in> set cv. - cent \<le> y"
    using ent(2) by (fastforce simp: cv_def value_of_def)
  have one: "(\<forall>x \<in> set dv. - cent \<le> x) \<or> (\<forall>y \<in> set cv. y \<le> cent)"
  proof (rule disjE [OF side])
    assume "cur_i t = length (debtors t)"
    with ent(1) have "\<forall>x \<in> set dv. - cent \<le> x" by (fastforce simp: dv_def value_of_def)
    then show ?thesis ..
  next
    assume "cur_j t = length (creditors t)"
    with ent(2) have "\<forall>y \<in> set cv. y \<le> cent" by (fastforce simp: cv_def value_of_def)
    then show ?thesis ..
  qed
  have w: "\<bar>sum_list dv + sum_list cv - W\<bar> \<le> of_nat (length ss) / 2 ^ 9"
    using cs by (simp add: conserving_def work_sum_def dv_def cv_def ss_def)
  have ld: "length dv = length (filter is_debtor bal)"
    using arg_cong [OF pd, of length]
    by (simp add: dv_def debtors_initial_state length_sort_cmp)
  have lc: "length cv = length (filter is_creditor bal)"
    using arg_cong [OF pc, of length]
    by (simp add: cv_def creditors_initial_state length_sort_cmp)
  have sE: "\<bar>sum_list (map (\<lambda>pa. value_of (snd pa)) excl)\<bar> \<le> of_nat (length excl) * cent"
  proof -
    have "\<forall>x \<in> set (map (\<lambda>pa. value_of (snd pa)) excl). \<bar>x\<bar> \<le> cent"
    proof
      fix x assume "x \<in> set (map (\<lambda>pa. value_of (snd pa)) excl)"
      then obtain p a where pa: "(p, a) \<in> set bal" "\<not> is_debtor (p, a)" "\<not> is_creditor (p, a)"
        "x = value_of a"
        by (auto simp: excl_def)
      from bnd pa(1) have "bounded_number a" by auto
      from excluded_small [OF this pa(2,3)] pa(4) show "\<bar>x\<bar> \<le> cent"
        by (auto simp: value_of_def)
    qed
    from sum_abs_bound [OF this] show ?thesis by simp
  qed
  have T: "balance_sum bal = W + sum_list (map (\<lambda>pa. value_of (snd pa)) excl)"
    unfolding W_def excl_def by (rule work_sum_initial)
  have n: "length bal = length dv + length cv + length excl"
    unfolding ld lc excl_def by (rule length_three_way)
  define nd nc ne :: rat where "nd = of_nat (length dv)" and "nc = of_nat (length cv)"
    and "ne = of_nat (length excl)"
  have nn: "0 \<le> nd" "0 \<le> nc" "0 \<le> ne" by (simp_all add: nd_def nc_def ne_def)
  have nat_n: "(of_nat (length bal) :: rat) = nd + nc + ne"
    by (simp add: n nd_def nc_def ne_def)
  have ks: "(of_nat (length ss) :: rat) \<le> nd + nc"
  proof -
    have "length ss \<le> length dv + length cv" using len by (simp add: ss_def ld lc)
    then have "(of_nat (length ss) :: rat) \<le> of_nat (length dv + length cv)"
      by (simp only: of_nat_le_iff)
    then show ?thesis by (simp add: nd_def nc_def)
  qed
  have bound: "\<bar>W\<bar> + nd * cent + nc * cent + of_nat (length ss) / 2 ^ 9 \<le> residual_bound bal"
  proof -
    have "\<bar>W\<bar> \<le> \<bar>balance_sum bal\<bar> + ne * cent"
      using T sE unfolding ne_def by (simp only: abs_le_iff) linarith
    moreover have "(of_nat (length ss) :: rat) / 2 ^ 9 \<le> (nd + nc + ne) / 2 ^ 9"
      using ks nn by (simp add: divide_right_mono)
    moreover have "(nd + nc + ne) * (cent + 1 / 2 ^ 9) \<le> (nd + nc + ne) * (3 / 250)"
      using nn residual_constant by (intro mult_left_mono) simp_all
    moreover have "(nd + nc + ne) * (cent + 1 / 2 ^ 9) =
        nd * cent + nc * cent + ne * cent + (nd + nc + ne) / 2 ^ 9"
      by (simp add: algebra_simps)
    ultimately show ?thesis
      unfolding residual_bound_def nat_n by linarith
  qed
  have key: "\<bar>z\<bar> \<le> residual_bound bal" if "z \<in> set dv \<union> set cv" for z
    using residual_arith [OF d cr one w _ that] cent_bounds(3) bound
    unfolding nd_def nc_def by linarith
  have small: "cent \<le> residual_bound bal" if "pa \<in> set bal" for pa
  proof -
    from that have "0 < length bal" by (rule length_pos_if_in_set)
    then have "(1::rat) \<le> of_nat (length bal)" by (simp add: Suc_le_eq)
    then have "(3::rat) / 250 \<le> of_nat (length bal) * (3 / 250)" by simp
    moreover have "cent \<le> 3 / 250" using residual_constant by simp
    ultimately show ?thesis unfolding residual_bound_def by linarith
  qed
  have dfin: "\<exists>x. map_of (apply_settlements bal ss) (fst pa) = Some (Fin x) \<and> x \<in> set dv \<and>
      (cur_i t = length (debtors t) \<longrightarrow> num_less (Math_abs (Fin x)) (lit (1 / 100)))"
    if "pa \<in> set bal" "is_debtor pa" for pa
  proof -
    from that have "fst pa \<in> set (map person (debtors t))"
      unfolding pd persons_initial_state by blast
    then obtain k where k: "k < length (debtors t)" "person (debtors t ! k) = fst pa"
      by (auto simp: in_set_conv_nth)
    from ent(1) k(1) obtain x where x: "amount (debtors t ! k) = Fin x" by fastforce
    have "map_of (apply_settlements bal ss) (fst pa) = Some (Fin x)"
      using tr k x unfolding ss_def tracks_def by auto
    moreover have "x \<in> set dv"
      using k(1) x unfolding dv_def by (force simp: value_of_def in_set_conv_nth)
    moreover have "num_less (Math_abs (Fin x)) (lit (1 / 100))"
      if "cur_i t = length (debtors t)"
      using tr k(1) x that unfolding tracks_def by auto
    ultimately show ?thesis by blast
  qed
  have cfin: "\<exists>y. map_of (apply_settlements bal ss) (fst pa) = Some (Fin y) \<and> y \<in> set cv \<and>
      (cur_j t = length (creditors t) \<longrightarrow> num_less (Math_abs (Fin y)) (lit (1 / 100)))"
    if "pa \<in> set bal" "is_creditor pa" for pa
  proof -
    from that have "fst pa \<in> set (map person (creditors t))"
      unfolding pc persons_initial_state by blast
    then obtain k where k: "k < length (creditors t)" "person (creditors t ! k) = fst pa"
      by (auto simp: in_set_conv_nth)
    from ent(2) k(1) obtain y where y: "amount (creditors t ! k) = Fin y" by fastforce
    have "map_of (apply_settlements bal ss) (fst pa) = Some (Fin y)"
      using tr k y unfolding ss_def tracks_def by auto
    moreover have "y \<in> set cv"
      using k(1) y unfolding cv_def by (force simp: value_of_def in_set_conv_nth)
    moreover have "num_less (Math_abs (Fin y)) (lit (1 / 100))"
      if "cur_j t = length (creditors t)"
      using cs k(1) y that unfolding conserving_def by auto
    ultimately show ?thesis by blast
  qed
  have efin: "\<exists>x. map_of (apply_settlements bal ss) (fst pa) = Some (Fin x) \<and> \<bar>x\<bar> \<le> cent"
    if "pa \<in> set bal" "\<not> is_debtor pa" "\<not> is_creditor pa" for pa
  proof -
    have "fst pa \<notin> D"
    proof
      assume "fst pa \<in> D"
      then obtain a where "(fst pa, a) \<in> set bal" "is_debtor (fst pa, a)"
        by (auto simp: D_def)
      moreover from this(1) that(1) dist have "a = snd pa"
        by (metis eq_key_imp_eq_value prod.collapse)
      ultimately show False using that(2) by simp
    qed
    moreover have "fst pa \<notin> C"
    proof
      assume "fst pa \<in> C"
      then obtain a where "(fst pa, a) \<in> set bal" "is_creditor (fst pa, a)"
        by (auto simp: C_def)
      moreover from this(1) that(1) dist have "a = snd pa"
        by (metis eq_key_imp_eq_value prod.collapse)
      ultimately show False using that(3) by simp
    qed
    moreover have "\<forall>x \<in> set ss. sfrom x \<in> D \<and> sto x \<in> C"
      using pp unfolding payers_payees_def ss_def by simp
    ultimately have "\<forall>x \<in> set ss. sfrom x \<noteq> fst pa \<and> sto x \<noteq> fst pa"
      by auto
    from map_of_apply_settlements_other [OF this]
    have "map_of (apply_settlements bal ss) (fst pa) = map_of bal (fst pa)" .
    also have "\<dots> = Some (snd pa)"
      using dist that(1) map_of_is_SomeI [of bal "fst pa" "snd pa"] by simp
    finally have m: "map_of (apply_settlements bal ss) (fst pa) = Some (snd pa)" .
    from bnd that(1) have "bounded_number (snd pa)" by (cases pa) auto
    from excluded_small [OF this, of "fst pa"] that(2,3)
    obtain x where "snd pa = Fin x" "\<bar>x\<bar> \<le> cent" by auto
    with m show ?thesis by simp
  qed
  have res: "residuals_within (residual_bound bal) bal ss"
    unfolding residuals_within_def
  proof
    fix pa assume pa: "pa \<in> set bal"
    consider "is_debtor pa" | "is_creditor pa" | "\<not> is_debtor pa" "\<not> is_creditor pa" by blast
    then show "case map_of (apply_settlements bal ss) (fst pa) of
        Some a \<Rightarrow> near_zero (residual_bound bal) a | None \<Rightarrow> False"
    proof cases
      case 1
      from dfin [OF pa 1] key show ?thesis by (auto simp: near_zero_def)
    next
      case 2
      from cfin [OF pa 2] key show ?thesis by (auto simp: near_zero_def)
    next
      case 3
      from efin [OF pa 3] small [OF pa] show ?thesis by (auto simp: near_zero_def)
    qed
  qed
  have "settled_debtors bal ss \<or> settled_creditors bal ss"
  proof (rule disjE [OF side])
    assume "cur_i t = length (debtors t)"
    with dfin have "settled_debtors bal ss"
      unfolding settled_debtors_def by fastforce
    then show ?thesis ..
  next
    assume "cur_j t = length (creditors t)"
    with cfin have "settled_creditors bal ss"
      unfolding settled_creditors_def by fastforce
    then show ?thesis ..
  qed
  with run res show ?thesis by blast
qed

theorem simplifyDebts_residuals_witness:
  "distinct (map fst [(''A'', Fin (- 30)), (''B'', Fin 10), (''C'', Fin 25)]) \<and>
   bounded_number (Fin (- 30)) \<and> bounded_number (Fin 10) \<and> bounded_number (Fin 25) \<and>
   simplifyDebts [(''A'', Fin (- 30)), (''B'', Fin 10), (''C'', Fin 25)] =
     Some [\<lparr>sfrom = ''A'', sto = ''C'', samount = Fin 25, currency = ''USD''\<rparr>,
           \<lparr>sfrom = ''A'', sto = ''B'', samount = Fin 5, currency = ''USD''\<rparr>] \<and>
   apply_settlements [(''A'', Fin (- 30)), (''B'', Fin 10), (''C'', Fin 25)]
     [\<lparr>sfrom = ''A'', sto = ''C'', samount = Fin 25, currency = ''USD''\<rparr>,
      \<lparr>sfrom = ''A'', sto = ''B'', samount = Fin 5, currency = ''USD''\<rparr>] =
     [(''A'', Fin 0), (''B'', Fin 5), (''C'', Fin 0)] \<and>
   residual_bound [(''A'', Fin (- 30)), (''B'', Fin 10), (''C'', Fin 25)] = 5 + 9 / 250 \<and>
   near_zero (5 + 9 / 250) (Fin 5) \<and> near_zero (5 + 9 / 250) (Fin 0)"
proof -
  have d: "distinct (map fst [(''A'', Fin (- 30)), (''B'', Fin 10), (''C'', Fin 25)])"
    by simp
  have b: "\<forall>(p, a) \<in> set [(''A'', Fin (- 30)), (''B'', Fin 10), (''C'', Fin 25)].
             bounded_number a"
    by (simp add: bounded_number_def)
  have r: "simplifyDebts [(''A'', Fin (- 30)), (''B'', Fin 10), (''C'', Fin 25)] =
     Some [\<lparr>sfrom = ''A'', sto = ''C'', samount = Fin 25, currency = ''USD''\<rparr>,
           \<lparr>sfrom = ''A'', sto = ''B'', samount = Fin 5, currency = ''USD''\<rparr>]"
    by (simp add: loop_eval num_eval)
  have a: "apply_settlements [(''A'', Fin (- 30)), (''B'', Fin 10), (''C'', Fin 25)]
     [\<lparr>sfrom = ''A'', sto = ''C'', samount = Fin 25, currency = ''USD''\<rparr>,
      \<lparr>sfrom = ''A'', sto = ''B'', samount = Fin 5, currency = ''USD''\<rparr>] =
     [(''A'', Fin 0), (''B'', Fin 5), (''C'', Fin 0)]"
    by (simp add: apply_settlements_def apply_settlement_def num_sub_def num_eval)
  have e: "residual_bound [(''A'', Fin (- 30)), (''B'', Fin 10), (''C'', Fin 25)] = 5 + 9 / 250"
    by (simp add: residual_bound_def balance_sum_def value_of_def)
  from simplifyDebts_residuals [OF d b] r have
    "residuals_within (residual_bound [(''A'', Fin (- 30)), (''B'', Fin 10), (''C'', Fin 25)])
       [(''A'', Fin (- 30)), (''B'', Fin 10), (''C'', Fin 25)]
       [\<lparr>sfrom = ''A'', sto = ''C'', samount = Fin 25, currency = ''USD''\<rparr>,
        \<lparr>sfrom = ''A'', sto = ''B'', samount = Fin 5, currency = ''USD''\<rparr>]"
    by auto
  then have "near_zero (5 + 9 / 250) (Fin 5) \<and> near_zero (5 + 9 / 250) (Fin 0)"
    unfolding residuals_within_def a e by simp
  with d b r a e show ?thesis by (simp add: bounded_number_def)
qed

text \<open>
  C1 as stated fails: A owes 1/32 and four participants are owed 1/128 each. The balances
  sum to zero exactly, no creditor reaches the epsilon, no settlement is emitted, and A
  stays at -1/32, outside the epsilon. Beyond the range of the amended claim the residue is
  not bounded by the epsilons either: the whole amounts -3245520936449478, 2935885103952097
  and 309635832497381 sum to zero exactly, the two transfers are rounded to
  2935885103952097.5 and 309635832497380.5, and B and C end at -0.5 and +0.5.
\<close>

theorem zero_sum_not_settled:
  "foldl num_add (Fin 0) (map snd
     [(''A'', Fin (- (1 / 32))), (''B'', Fin (1 / 128)), (''C'', Fin (1 / 128)),
      (''D'', Fin (1 / 128)), (''E'', Fin (1 / 128))]) = Fin 0 \<and>
   simplifyDebts
     [(''A'', Fin (- (1 / 32))), (''B'', Fin (1 / 128)), (''C'', Fin (1 / 128)),
      (''D'', Fin (1 / 128)), (''E'', Fin (1 / 128))] = Some [] \<and>
   map_of (apply_settlements
     [(''A'', Fin (- (1 / 32))), (''B'', Fin (1 / 128)), (''C'', Fin (1 / 128)),
      (''D'', Fin (1 / 128)), (''E'', Fin (1 / 128))] []) ''A'' = Some (Fin (- (1 / 32))) \<and>
   \<not> within_epsilon (Fin (- (1 / 32))) \<and>
   balance_sum [(''A'', Fin (- 3245520936449478)), (''B'', Fin 2935885103952097),
      (''C'', Fin 309635832497381)] = 0 \<and>
   simplifyDebts [(''A'', Fin (- 3245520936449478)), (''B'', Fin 2935885103952097),
      (''C'', Fin 309635832497381)] =
     Some [\<lparr>sfrom = ''A'', sto = ''B'', samount = Fin (2935885103952097 + 1 / 2),
             currency = ''USD''\<rparr>,
           \<lparr>sfrom = ''A'', sto = ''C'', samount = Fin (309635832497381 - 1 / 2),
             currency = ''USD''\<rparr>] \<and>
   apply_settlements [(''A'', Fin (- 3245520936449478)), (''B'', Fin 2935885103952097),
      (''C'', Fin 309635832497381)]
     [\<lparr>sfrom = ''A'', sto = ''B'', samount = Fin (2935885103952097 + 1 / 2),
        currency = ''USD''\<rparr>,
      \<lparr>sfrom = ''A'', sto = ''C'', samount = Fin (309635832497381 - 1 / 2),
        currency = ''USD''\<rparr>] =
     [(''A'', Fin 0), (''B'', Fin (- (1 / 2))), (''C'', Fin (1 / 2))] \<and>
   \<not> near_zero (residual_bound [(''A'', Fin (- 3245520936449478)),
      (''B'', Fin 2935885103952097), (''C'', Fin 309635832497381)]) (Fin (- (1 / 2)))"
  by (simp add: loop_eval num_eval apply_settlements_def apply_settlement_def
      within_epsilon_def cent_def balance_sum_def residual_bound_def value_of_def near_zero_def)

section \<open>The argument is left untouched\<close>

lemma st_loop_invariant:
  assumes run: "st_loop s = Some t"
    and init: "I s"
    and step: "\<And>u. I u \<Longrightarrow> st_cond u \<Longrightarrow> I (st_body u)"
  shows "I t \<and> \<not> st_cond t"
proof -
  have "I s \<longrightarrow> I t \<and> \<not> st_cond t"
  proof (rule st_loop.raw_induct
      [where P = "\<lambda>u v. I u \<longrightarrow> I v \<and> \<not> st_cond v" and s = s and y = t])
    show "st_loop s = Some t" by (fact run)
  next
    fix loop :: "st_state \<Rightarrow> st_state option" and u v
    assume IH: "\<And>x y. loop x = Some y \<Longrightarrow> I x \<longrightarrow> I y \<and> \<not> st_cond y"
      and eq: "(if st_cond u then loop (st_body u) else Some u) = Some v"
    show "I u \<longrightarrow> I v \<and> \<not> st_cond v"
    proof (cases "st_cond u")
      case True
      with eq have "loop (st_body u) = Some v" by simp
      from IH [OF this] step True show ?thesis by blast
    next
      case False
      with eq show ?thesis by auto
    qed
  qed
  with init show ?thesis by simp
qed

lemma separate_st_frame:
  assumes "separate_st es h ds cs = (h', ds', cs')"
    and "take n h = h0" "\<forall>a \<in> set ds \<union> set cs. n \<le> a" "n \<le> length h"
  shows "take n h' = h0 \<and> (\<forall>a \<in> set ds' \<union> set cs'. n \<le> a) \<and> n \<le> length h'"
  using assms
proof (induction es arbitrary: h ds cs)
  case Nil
  then show ?case by simp
next
  case (Cons pa rest)
  obtain p a where pa: "pa = (p, a)" by (cases pa)
  define h1 where "h1 = (if num_less a (num_neg (lit (1 / 100)))
             then h @ [Working \<lparr>person = p, amount = a\<rparr>] else h)"
  define ds1 where "ds1 = (if num_less a (num_neg (lit (1 / 100)))
             then ds @ [length h] else ds)"
  define h2 where "h2 = (if num_less (lit (1 / 100)) a
             then h1 @ [Working \<lparr>person = p, amount = a\<rparr>] else h1)"
  define cs1 where "cs1 = (if num_less (lit (1 / 100)) a
             then cs @ [length h1] else cs)"
  have run: "separate_st rest h2 ds1 cs1 = (h', ds', cs')"
    using Cons.prems(1) by (simp add: pa h1_def ds1_def h2_def cs1_def Let_def split: if_splits)
  have "take n h1 = h0" "n \<le> length h1"
    using Cons.prems(2,4) by (auto simp: h1_def)
  then have "take n h2 = h0" "n \<le> length h2" "\<forall>a \<in> set ds1 \<union> set cs1. n \<le> a"
    using Cons.prems(3,4) by (auto simp: h2_def ds1_def cs1_def h1_def)
  with Cons.IH [OF run] show ?case by blast
qed

lemma framed_initial: "framed h (st_initial b h)"
proof -
  obtain h' ds cs where sep: "separate_st (entries_at h b) h [] [] = (h', ds, cs)"
    by (cases "separate_st (entries_at h b) h [] []") auto
  from separate_st_frame [OF sep, of "length h" h]
  have "take (length h) h' = h" "\<forall>a \<in> set ds \<union> set cs. length h \<le> a"
    by simp_all
  then show ?thesis
    by (simp add: framed_def st_initial_def sep set_sort_cmp)
qed

lemma framed_step:
  assumes "framed h0 s" "st_cond s"
  shows "framed h0 (st_body s)"
proof -
  have d: "length h0 \<le> debtor_refs s ! st_i s" and c: "length h0 \<le> creditor_refs s ! st_j s"
    using assms by (simp_all add: framed_def st_cond_def)
  then show ?thesis
    using assms(1)
    by (simp add: framed_def st_body_def Let_def set_amount_def take_update_cancel)
qed

lemma simplifyDebts_st_frame:
  assumes "simplifyDebts_st b h = Some (ss, h')"
  shows "take (length h) h' = h"
proof -
  from assms obtain t where t: "st_loop (st_initial b h) = Some t" and h': "h' = heap t"
    by (auto simp: simplifyDebts_st_def)
  from st_loop_invariant [OF t, of "framed h"] framed_initial framed_step
  have "framed h t" by blast
  then show ?thesis by (simp add: framed_def h')
qed

lemma simplifyDebts_st_input_unchanged:
  assumes "simplifyDebts_st b h = Some (ss, h')" and "b < length h"
  shows "h' ! b = h ! b"
proof -
  have "take (length h) h' ! b = h' ! b" using assms(2) by simp
  with simplifyDebts_st_frame [OF assms(1)] show ?thesis by simp
qed

lemmas st_eval = simplifyDebts_st_def st_initial_def st_cond_def st_body_def set_amount_def
  entry_at_def entries_at_def st_loop.simps sort_cmp_def transfer_def round2_def num_sub_def

lemma entry_at_set_amount:
  assumes "a < length h"
  shows "entry_at (set_amount h a v) r =
     (if r = a then (entry_at h a)\<lparr>amount := v\<rparr> else entry_at h r)"
  using assms by (simp add: entry_at_def set_amount_def)

lemma is_working_set_amount:
  "is_working h r \<Longrightarrow> is_working (set_amount h a v) r"
  by (cases "a = r") (auto simp: is_working_def set_amount_def)

lemma abs_cond: "loop_cond (abs_state s) = st_cond s"
  by (simp add: loop_cond_def st_cond_def abs_state_def)

lemma map_update_distinct:
  assumes "distinct rs" "i < length rs"
  shows "map (\<lambda>r. if r = rs ! i then y else f r) rs = (map f rs)[i := y]"
proof (rule nth_equalityI)
  show "length (map (\<lambda>r. if r = rs ! i then y else f r) rs) = length ((map f rs)[i := y])"
    by simp
next
  fix k assume "k < length (map (\<lambda>r. if r = rs ! i then y else f r) rs)"
  then have k: "k < length rs" by simp
  with assms have "rs ! k = rs ! i \<longleftrightarrow> k = i"
    by (simp add: nth_eq_iff_index_eq)
  with k assms(2) show "map (\<lambda>r. if r = rs ! i then y else f r) rs ! k = (map f rs)[i := y] ! k"
    by (auto simp: nth_list_update)
qed

lemma abs_body:
  assumes wf: "wf_refs s" and c: "st_cond s"
  shows "abs_state (st_body s) = loop_body (abs_state s)" and "wf_refs (st_body s)"
proof -
  define d where "d = debtor_refs s ! st_i s"
  define cr where "cr = creditor_refs s ! st_j s"
  define amt where "amt = transfer (entry_at (heap s) d) (entry_at (heap s) cr)"
  define h1 where "h1 = set_amount (heap s) d (num_add (amount (entry_at (heap s) d)) amt)"
  define h2 where "h2 = set_amount h1 cr (num_sub (amount (entry_at h1 cr)) amt)"
  have i: "st_i s < length (debtor_refs s)" and j: "st_j s < length (creditor_refs s)"
    using c by (simp_all add: st_cond_def)
  have dm: "d \<in> set (debtor_refs s)" and cm: "cr \<in> set (creditor_refs s)"
    using i j by (simp_all add: d_def cr_def)
  have dd: "distinct (debtor_refs s)" and dc: "distinct (creditor_refs s)"
    and disj: "set (debtor_refs s) \<inter> set (creditor_refs s) = {}"
    using wf by (simp_all add: wf_refs_def)
  have ne: "d \<noteq> cr" using dm cm disj by auto
  have dl: "d < length (heap s)" and cl: "cr < length (heap s)"
    using wf dm cm by (auto simp: wf_refs_def is_working_def)
  have cl1: "cr < length h1" using cl by (simp add: h1_def set_amount_def)
  have e1: "entry_at h1 r =
      (if r = d then (entry_at (heap s) d)\<lparr>amount := num_add (amount (entry_at (heap s) d)) amt\<rparr>
       else entry_at (heap s) r)" for r
    unfolding h1_def by (rule entry_at_set_amount [OF dl])
  have e2: "entry_at h2 r =
      (if r = cr then (entry_at (heap s) cr)\<lparr>amount := num_sub (amount (entry_at (heap s) cr)) amt\<rparr>
       else entry_at h1 r)" for r
    unfolding h2_def using ne by (simp add: entry_at_set_amount [OF cl1] e1)
  have body: "st_body s =
     \<lparr>heap = h2, debtor_refs = debtor_refs s, creditor_refs = creditor_refs s,
      st_i = (if num_less (Math_abs (amount (entry_at h2 d))) (lit (1 / 100))
              then st_i s + 1 else st_i s),
      st_j = (if num_less (amount (entry_at h2 cr)) (lit (1 / 100))
              then st_j s + 1 else st_j s),
      st_settlements = st_settlements s @
        [\<lparr>sfrom = person (entry_at (heap s) d), sto = person (entry_at (heap s) cr),
          samount = amt, currency = ''USD''\<rparr>]\<rparr>"
    by (simp add: st_body_def Let_def d_def cr_def amt_def h1_def h2_def)
  have md: "map (entry_at h2) (debtor_refs s) =
      (map (entry_at (heap s)) (debtor_refs s))
        [st_i s := (entry_at (heap s) d)\<lparr>amount := num_add (amount (entry_at (heap s) d)) amt\<rparr>]"
  proof -
    have "map (entry_at h2) (debtor_refs s) =
        map (\<lambda>r. if r = debtor_refs s ! st_i s
          then (entry_at (heap s) d)\<lparr>amount := num_add (amount (entry_at (heap s) d)) amt\<rparr>
          else entry_at (heap s) r) (debtor_refs s)"
      using disj cm by (auto simp: e2 e1 d_def)
    then show ?thesis by (simp only: map_update_distinct [OF dd i])
  qed
  have mc: "map (entry_at h2) (creditor_refs s) =
      (map (entry_at (heap s)) (creditor_refs s))
        [st_j s := (entry_at (heap s) cr)\<lparr>amount := num_sub (amount (entry_at (heap s) cr)) amt\<rparr>]"
  proof -
    have "map (entry_at h2) (creditor_refs s) =
        map (\<lambda>r. if r = creditor_refs s ! st_j s
          then (entry_at (heap s) cr)\<lparr>amount := num_sub (amount (entry_at (heap s) cr)) amt\<rparr>
          else entry_at (heap s) r) (creditor_refs s)"
      using disj dm by (auto simp: e2 e1 cr_def)
    then show ?thesis by (simp only: map_update_distinct [OF dc j])
  qed
  show "abs_state (st_body s) = loop_body (abs_state s)"
    unfolding body
    using i j ne
    by (simp add: abs_state_def loop_body_def Let_def md mc e2 e1 d_def [symmetric]
        cr_def [symmetric] amt_def [symmetric])
  show "wf_refs (st_body s)"
    using wf unfolding body
    by (auto simp: wf_refs_def h2_def h1_def intro: is_working_set_amount)
qed

lemma distinct_sort_cmp: "distinct (sort_cmp cmp xs) = distinct xs"
  using distinct_map_sort_cmp [of "\<lambda>x. x" cmp xs] by simp

lemma map_insort_cmp:
  assumes "\<And>x y. cmp' x y = cmp (f x) (f y)"
  shows "map f (insort_cmp cmp' x ys) = insort_cmp cmp (f x) (map f ys)"
  by (induction ys) (simp_all add: assms)

lemma map_sort_cmp:
  assumes "\<And>x y. cmp' x y = cmp (f x) (f y)"
  shows "map f (sort_cmp cmp' xs) = sort_cmp cmp (map f xs)"
  unfolding sort_cmp_def
  by (induction xs) (simp_all add: map_insort_cmp [of cmp' cmp f, OF assms])

lemma entry_at_append: "a < length h \<Longrightarrow> entry_at (h @ xs) a = entry_at h a"
  by (simp add: entry_at_def nth_append)

lemma is_working_append: "is_working h a \<Longrightarrow> is_working (h @ xs) a"
  by (simp add: is_working_def nth_append)

lemma entry_at_new: "entry_at (h @ [Working e]) (length h) = e"
  by (simp add: entry_at_def)

lemma is_working_new: "is_working (h @ [Working e]) (length h)"
  by (simp add: is_working_def)

lemma separate_st_abs:
  assumes "separate_st es h ds cs = (h', ds', cs')"
    and "\<forall>a \<in> set ds \<union> set cs. is_working h a" and "distinct (ds @ cs)"
  shows "map (entry_at h') ds' = map (entry_at h) ds @ map mk_entry (filter is_debtor es) \<and>
         map (entry_at h') cs' = map (entry_at h) cs @ map mk_entry (filter is_creditor es) \<and>
         distinct (ds' @ cs') \<and> (\<forall>a \<in> set ds' \<union> set cs'. is_working h' a)"
  using assms
proof (induction es arbitrary: h ds cs)
  case Nil
  then show ?case by simp
next
  case (Cons pa rest)
  obtain p a where pa: "pa = (p, a)" by (cases pa)
  define h1 where "h1 = (if is_debtor pa then h @ [Working (mk_entry pa)] else h)"
  define ds1 where "ds1 = (if is_debtor pa then ds @ [length h] else ds)"
  define h2 where "h2 = (if is_creditor pa then h1 @ [Working (mk_entry pa)] else h1)"
  define cs1 where "cs1 = (if is_creditor pa then cs @ [length h1] else cs)"
  have run: "separate_st rest h2 ds1 cs1 = (h', ds', cs')"
    using Cons.prems(1)
    by (simp add: pa h1_def ds1_def h2_def cs1_def Let_def is_debtor_def is_creditor_def
        mk_entry_def split: if_splits)
  have old: "a < length h" if "a \<in> set ds \<union> set cs" for a
    using Cons.prems(2) that by (auto simp: is_working_def)
  have len: "length h \<le> length h1" by (simp add: h1_def)
  have w1: "is_working h1 r" if "r \<in> set ds1 \<union> set cs" for r
    using that Cons.prems(2)
    by (auto simp: ds1_def h1_def is_working_new intro: is_working_append split: if_splits)
  have w: "\<forall>a \<in> set ds1 \<union> set cs1. is_working h2 a"
    using w1 by (auto simp: cs1_def h2_def is_working_new intro: is_working_append split: if_splits)
  have nd: "length h \<notin> set ds \<union> set cs" using old by auto
  have nc: "length h1 \<notin> set ds1 \<union> set cs"
  proof
    assume "length h1 \<in> set ds1 \<union> set cs"
    then consider "length h1 \<in> set ds \<union> set cs" | "is_debtor pa" "length h1 = length h"
      by (auto simp: ds1_def split: if_splits)
    then show False
    proof cases
      case 1
      then have "length h1 < length h" by (rule old)
      with len show False by simp
    next
      case 2
      then show False by (simp add: h1_def)
    qed
  qed
  have d: "distinct (ds1 @ cs1)"
    using Cons.prems(3) nd nc by (auto simp: ds1_def cs1_def)
  have e: "entry_at h2 r = entry_at h r" if "r \<in> set ds \<union> set cs" for r
    using old [OF that] by (simp add: h2_def h1_def entry_at_append)
  have eds: "map (entry_at h2) ds = map (entry_at h) ds"
    and ecs: "map (entry_at h2) cs = map (entry_at h) cs"
    using e by simp_all
  have nd1: "entry_at h2 (length h) = mk_entry pa" if "is_debtor pa"
  proof -
    have "entry_at h1 (length h) = mk_entry pa"
      using that by (simp add: h1_def entry_at_new)
    moreover have "length h < length h1" using that by (simp add: h1_def)
    ultimately show ?thesis by (simp add: h2_def entry_at_append)
  qed
  have nc1: "entry_at h2 (length h1) = mk_entry pa" if "is_creditor pa"
    using that by (simp add: h2_def entry_at_new)
  have md: "map (entry_at h2) ds1 = map (entry_at h) ds @ map mk_entry (filter is_debtor [pa])"
    using eds nd1 by (simp add: ds1_def)
  have mc: "map (entry_at h2) cs1 = map (entry_at h) cs @ map mk_entry (filter is_creditor [pa])"
    using ecs nc1 by (simp add: cs1_def)
  from Cons.IH [OF run w d] md mc show ?case by simp
qed

lemma abs_initial:
  "abs_state (st_initial b h) = initial_state (entries_at h b)" 
  "wf_refs (st_initial b h)"
proof -
  obtain h' ds cs where sep: "separate_st (entries_at h b) h [] [] = (h', ds, cs)"
    by (cases "separate_st (entries_at h b) h [] []") auto
  from separate_st_abs [OF sep]
  have md: "map (entry_at h') ds = map mk_entry (filter is_debtor (entries_at h b))"
    and mc: "map (entry_at h') cs = map mk_entry (filter is_creditor (entries_at h b))"
    and d: "distinct (ds @ cs)" and w: "\<forall>a \<in> set ds \<union> set cs. is_working h' a"
    by simp_all
  have "map (entry_at h')
          (sort_cmp (\<lambda>x y. num_sub (amount (entry_at h' x)) (amount (entry_at h' y))) ds) =
        sort_cmp cmp_debtors (map (entry_at h') ds)"
    by (rule map_sort_cmp) (simp add: cmp_debtors_def)
  moreover have "map (entry_at h')
          (sort_cmp (\<lambda>x y. num_sub (amount (entry_at h' y)) (amount (entry_at h' x))) cs) =
        sort_cmp cmp_creditors (map (entry_at h') cs)"
    by (rule map_sort_cmp) (simp add: cmp_creditors_def)
  ultimately show "abs_state (st_initial b h) = initial_state (entries_at h b)"
    by (simp add: abs_state_def st_initial_def sep md mc initial_state_def separate_append)
  show "wf_refs (st_initial b h)"
    using d w by (auto simp: wf_refs_def st_initial_def sep set_sort_cmp distinct_sort_cmp)
qed

lemma st_loop_refines:
  assumes "st_loop s = Some t" "wf_refs s"
  shows "match_loop (abs_state s) = Some (abs_state t)"
proof -
  have "wf_refs s \<longrightarrow> match_loop (abs_state s) = Some (abs_state t)"
  proof (rule st_loop.raw_induct
      [where P = "\<lambda>u v. wf_refs u \<longrightarrow> match_loop (abs_state u) = Some (abs_state v)"
        and s = s and y = t])
    show "st_loop s = Some t" by (fact assms(1))
  next
    fix loop :: "st_state \<Rightarrow> st_state option" and u v
    assume IH: "\<And>x y. loop x = Some y \<Longrightarrow>
        wf_refs x \<longrightarrow> match_loop (abs_state x) = Some (abs_state y)"
      and eq: "(if st_cond u then loop (st_body u) else Some u) = Some v"
    show "wf_refs u \<longrightarrow> match_loop (abs_state u) = Some (abs_state v)"
    proof (cases "st_cond u")
      case True
      with eq have "loop (st_body u) = Some v" by simp
      from IH [OF this] True show ?thesis
        by (auto simp: match_loop.simps [of "abs_state u"] abs_cond abs_body)
    next
      case False
      with eq have "u = v" by simp
      with False show ?thesis
        by (simp add: match_loop.simps [of "abs_state v"] abs_cond)
    qed
  qed
  with assms(2) show ?thesis by simp
qed

text \<open>
  C10. The call never modifies its argument: when it returns, the mapping it was given
  (and every other object that existed before the call) is in the store exactly as
  before; the loop has written only to the objects the call itself created. The
  settlements returned are those of \<open>simplifyDebts\<close> on the entries of the mapping.
\<close>

theorem simplifyDebts_leaves_input:
  assumes "simplifyDebts_st b h = Some (ss, h')" and "b < length h"
  shows "h' ! b = h ! b \<and> take (length h) h' = h \<and> simplifyDebts (entries_at h b) = Some ss"
proof -
  from assms(1) obtain t where t: "st_loop (st_initial b h) = Some t"
    and ss: "ss = st_settlements t"
    by (auto simp: simplifyDebts_st_def)
  from st_loop_refines [OF t abs_initial(2)]
  have "match_loop (initial_state (entries_at h b)) = Some (abs_state t)"
    by (simp add: abs_initial(1))
  then have "simplifyDebts (entries_at h b) = Some ss"
    by (simp add: simplifyDebts_def ss abs_state_def)
  with simplifyDebts_st_frame [OF assms(1)] simplifyDebts_st_input_unchanged [OF assms]
  show ?thesis by simp
qed

lemma match_loop_lifts:
  assumes "match_loop x = Some y" "wf_refs s" "abs_state s = x"
  shows "\<exists>t. st_loop s = Some t \<and> abs_state t = y"
proof -
  have "\<forall>u. wf_refs u \<and> abs_state u = x \<longrightarrow> (\<exists>t. st_loop u = Some t \<and> abs_state t = y)"
  proof (rule match_loop.raw_induct
      [where P = "\<lambda>x y. \<forall>u. wf_refs u \<and> abs_state u = x \<longrightarrow>
          (\<exists>t. st_loop u = Some t \<and> abs_state t = y)" and s = x and y = y])
    show "match_loop x = Some y" by (fact assms(1))
  next
    fix loop :: "loop_state \<Rightarrow> loop_state option" and x y
    assume IH: "\<And>x y. loop x = Some y \<Longrightarrow>
        \<forall>u. wf_refs u \<and> abs_state u = x \<longrightarrow> (\<exists>t. st_loop u = Some t \<and> abs_state t = y)"
      and eq: "(if loop_cond x then loop (loop_body x) else Some x) = Some y"
    show "\<forall>u. wf_refs u \<and> abs_state u = x \<longrightarrow> (\<exists>t. st_loop u = Some t \<and> abs_state t = y)"
    proof (intro allI impI)
      fix u assume u: "wf_refs u \<and> abs_state u = x"
      show "\<exists>t. st_loop u = Some t \<and> abs_state t = y"
      proof (cases "loop_cond x")
        case True
        with u have c: "st_cond u" by (simp add: abs_cond [symmetric])
        from True eq have "loop (loop_body x) = Some y" by simp
        from IH [OF this] u c obtain t where "st_loop (st_body u) = Some t" "abs_state t = y"
          using abs_body [of u] by auto
        with c show ?thesis by (simp add: st_loop.simps [of u])
      next
        case False
        with u have c: "\<not> st_cond u" by (simp add: abs_cond [symmetric])
        from False eq have "y = x" by simp
        with c u show ?thesis by (simp add: st_loop.simps [of u])
      qed
    qed
  qed
  with assms(2,3) show ?thesis by blast
qed

lemma simplifyDebts_st_returns:
  assumes "simplifyDebts (entries_at h b) = Some ss"
  shows "\<exists>h'. simplifyDebts_st b h = Some (ss, h')"
proof -
  from assms obtain y where y: "match_loop (initial_state (entries_at h b)) = Some y"
    and ss: "ss = settlements y"
    by (auto simp: simplifyDebts_def)
  from match_loop_lifts [OF y abs_initial(2) abs_initial(1)]
  obtain t where "st_loop (st_initial b h) = Some t" "abs_state t = y" by blast
  then show ?thesis
    by (auto simp: simplifyDebts_st_def ss abs_state_def)
qed

theorem simplifyDebts_leaves_input_witness:
  "simplifyDebts_st 0 [Mapping [(''A'', Fin (- 30)), (''B'', Fin 10), (''C'', Fin 20)]] =
     Some ([\<lparr>sfrom = ''A'', sto = ''C'', samount = Fin 20, currency = ''USD''\<rparr>,
            \<lparr>sfrom = ''A'', sto = ''B'', samount = Fin 10, currency = ''USD''\<rparr>],
           [Mapping [(''A'', Fin (- 30)), (''B'', Fin 10), (''C'', Fin 20)],
            Working \<lparr>person = ''A'', amount = Fin 0\<rparr>,
            Working \<lparr>person = ''B'', amount = Fin 0\<rparr>,
            Working \<lparr>person = ''C'', amount = Fin 0\<rparr>]) \<and>
   (0::nat) < length [Mapping [(''A'', Fin (- 30)), (''B'', Fin 10), (''C'', Fin 20)]] \<and>
   [Mapping [(''A'', Fin (- 30)), (''B'', Fin 10), (''C'', Fin 20)],
    Working \<lparr>person = ''A'', amount = Fin 0\<rparr>,
    Working \<lparr>person = ''B'', amount = Fin 0\<rparr>,
    Working \<lparr>person = ''C'', amount = Fin 0\<rparr>] ! 0 =
     [Mapping [(''A'', Fin (- 30)), (''B'', Fin 10), (''C'', Fin 20)]] ! 0"
proof -
  have r: "simplifyDebts_st 0 [Mapping [(''A'', Fin (- 30)), (''B'', Fin 10), (''C'', Fin 20)]] =
     Some ([\<lparr>sfrom = ''A'', sto = ''C'', samount = Fin 20, currency = ''USD''\<rparr>,
            \<lparr>sfrom = ''A'', sto = ''B'', samount = Fin 10, currency = ''USD''\<rparr>],
           [Mapping [(''A'', Fin (- 30)), (''B'', Fin 10), (''C'', Fin 20)],
            Working \<lparr>person = ''A'', amount = Fin 0\<rparr>,
            Working \<lparr>person = ''B'', amount = Fin 0\<rparr>,
            Working \<lparr>person = ''C'', amount = Fin 0\<rparr>])"
    by (simp add: st_eval num_eval)
  have l: "(0::nat) < length [Mapping [(''A'', Fin (- 30)), (''B'', Fin 10), (''C'', Fin 20)]]"
    by simp
  show ?thesis
    using simplifyDebts_leaves_input [OF r l] r l by simp
qed

section \<open>Termination for every finite input\<close>

lemma expo_minus: "expo (- x) = expo x"
  by (simp add: expo_def)

lemma ulp_minus: "ulp (- x) = ulp x"
  by (simp add: ulp_def expo_minus)

lemma rnd_minus: "rnd (- x) = - rnd x"
  by (simp add: rnd_def ulp_minus round_even_minus)

lemma round_even_floor: "round_even r = \<lfloor>r\<rfloor> \<or> round_even r = \<lfloor>r\<rfloor> + 1"
  by (simp add: round_even_def Let_def)

lemma round_even_mono:
  assumes "r \<le> s"
  shows "round_even r \<le> round_even s"
proof (cases "\<lfloor>r\<rfloor> = \<lfloor>s\<rfloor>")
  case True
  have "r - of_int \<lfloor>s\<rfloor> \<le> s - of_int \<lfloor>s\<rfloor>" using assms by simp
  then show ?thesis
    unfolding round_even_def Let_def True by auto
next
  case False
  have "\<lfloor>r\<rfloor> \<le> \<lfloor>s\<rfloor>" using assms by (rule floor_mono)
  with False have "\<lfloor>r\<rfloor> + 1 \<le> \<lfloor>s\<rfloor>" by simp
  moreover have "round_even r \<le> \<lfloor>r\<rfloor> + 1" using round_even_floor [of r] by auto
  moreover have "\<lfloor>s\<rfloor> \<le> round_even s" using round_even_floor [of s] by auto
  ultimately show ?thesis by linarith
qed

lemma rnd_mono_pos:
  assumes "0 < x" "x \<le> y"
  shows "rnd x \<le> rnd y"
proof -
  have y: "0 < y" using assms by simp
  have ax: "\<bar>x\<bar> = x" and ay: "\<bar>y\<bar> = y" using assms y by simp_all
  have bx: "2 powi expo x \<le> x" "x < 2 powi (expo x + 1)"
    using expo_bounds [of x] assms(1) by simp_all
  have by': "2 powi expo y \<le> y" "y < 2 powi (expo y + 1)"
    using expo_bounds [of y] y by simp_all
  have "(2::rat) powi expo x < 2 powi (expo y + 1)"
    using bx(1) by'(2) assms(2) by linarith
  then have exy: "expo x \<le> expo y" using powi_two_less by fastforce
  show ?thesis
  proof (cases "max (expo x) (- 1022) = max (expo y) (- 1022)")
    case True
    then have u: "ulp x = ulp y" by (simp add: ulp_def)
    have "x / ulp y \<le> y / ulp y"
      using assms(2) ulp_pos [of y] by (simp add: divide_right_mono)
    then have "round_even (x / ulp y) \<le> round_even (y / ulp y)" by (rule round_even_mono)
    then have "(of_int (round_even (x / ulp y)) :: rat) \<le> of_int (round_even (y / ulp y))"
      by simp
    then show ?thesis
      unfolding rnd_def u using ulp_pos [of y] by (intro mult_right_mono) simp_all
  next
    case False
    with exy have lt: "expo x < expo y" and ey: "- 1022 < expo y" by auto
    define k where "k = max (expo x + 1) (- 1074)"
    have "(2::rat) powi (expo x + 1) \<le> 2 powi k" by (rule powi_two_mono) (simp add: k_def)
    with bx(2) have "x \<le> 2 powi k" by linarith
    then have "rnd x \<le> 2 powi k" by (rule rnd_le_pow2) (simp add: k_def)
    moreover have "(2::rat) powi k \<le> 2 powi expo y"
      using lt ey by (intro powi_two_mono) (simp add: k_def)
    moreover have "2 powi expo y \<le> rnd y"
      using by'(1) ey by (intro rnd_ge_pow2) simp_all
    ultimately show ?thesis by linarith
  qed
qed

lemma rnd_mono:
  assumes "x \<le> y"
  shows "rnd x \<le> rnd y"
proof -
  consider "0 < x" | "x \<le> 0" "0 \<le> y" | "y < 0" by linarith
  then show ?thesis
  proof cases
    case 1
    then show ?thesis using assms by (rule rnd_mono_pos)
  next
    case 2
    then show ?thesis using rnd_nonpos [of x] rnd_nonneg [of y] by linarith
  next
    case 3
    then have "0 < - y" "- y \<le> - x" using assms by simp_all
    then have "rnd (- y) \<le> rnd (- x)" by (rule rnd_mono_pos)
    then show ?thesis by (simp add: rnd_minus)
  qed
qed

lemma rnd_fix_grid:
  assumes "max (expo (of_int m * 2 powi k)) (- 1022) - 52 \<le> k"
  shows "rnd (of_int m * 2 powi k) = of_int m * 2 powi k"
proof -
  define y :: rat where "y = of_int m * 2 powi k"
  define N where "N = m * 2 ^ nat (k - (max (expo y) (- 1022) - 52))"
  have eq: "y = of_int N * ulp y"
    unfolding ulp_def N_def y_def
    by (rule grid_multiple) (use assms in \<open>simp add: y_def\<close>)
  have "y / ulp y = of_int N"
    using ulp_pos [of y] by (subst eq) simp
  then have "rnd y = of_int N * ulp y"
    by (simp add: rnd_def round_even_of_int)
  with eq show ?thesis by (simp add: y_def)
qed

lemma expo_pow2: "expo (2 powi k) = k"
proof (rule expo_unique)
  show "2 powi k \<le> \<bar>2 powi k :: rat\<bar>" by simp
  have "(0::rat) < 2 powi k" by simp
  then show "\<bar>2 powi k :: rat\<bar> < 2 powi (k + 1)"
    unfolding powi_two_step by simp
qed

lemma rnd_idem: "rnd (rnd x) = rnd x"
proof (cases "x = 0")
  case True
  then show ?thesis by (simp add: rnd_zero)
next
  case False
  define E where "E = max (expo x) (- 1022)"
  define n where "n = round_even (x / ulp x)"
  have y: "rnd x = of_int n * 2 powi (E - 52)"
    by (simp add: rnd_def n_def ulp_def E_def)
  have "\<bar>x\<bar> < 2 powi (expo x + 1)" using False by (rule expo_bounds(2))
  also have "\<dots> \<le> 2 powi (E + 1)" by (rule powi_two_mono) (simp add: E_def)
  finally have xb: "- (2 powi (E + 1)) \<le> x" "x \<le> 2 powi (E + 1)" by (simp_all add: abs_if split: if_splits)
  have E: "- 1022 \<le> E" by (simp add: E_def)
  have lo: "- (2 powi (E + 1)) \<le> rnd x" using xb(1) E by (intro rnd_ge_neg_pow2) simp_all
  have hi: "rnd x \<le> 2 powi (E + 1)" using xb(2) E by (intro rnd_le_pow2) simp_all
  have "\<bar>rnd x\<bar> < 2 powi (E + 1)"
    if "rnd x \<noteq> 2 powi (E + 1)" "rnd x \<noteq> - (2 powi (E + 1))"
  proof -
    from that(1) hi have "rnd x < 2 powi (E + 1)" by simp
    moreover from that(2) lo have "- (2 powi (E + 1)) < rnd x" by simp
    ultimately show ?thesis by (simp add: abs_less_iff)
  qed
  then consider "rnd x = 0" | "rnd x \<noteq> 0" "\<bar>rnd x\<bar> < 2 powi (E + 1)"
    | "rnd x = 2 powi (E + 1)" | "rnd x = - (2 powi (E + 1))"
    by blast
  then show ?thesis
  proof cases
    case 1
    then show ?thesis by (simp add: rnd_zero)
  next
    case 2
    then have "expo (rnd x) < E + 1" by (rule expo_less)
    then have "max (expo (of_int n * 2 powi (E - 52))) (- 1022) - 52 \<le> E - 52"
      using E by (simp add: y [symmetric])
    from rnd_fix_grid [OF this] show ?thesis by (simp add: y)
  next
    case 3
    have "expo (rnd x) = E + 1"
      unfolding 3 by (rule expo_pow2)
    then have "max (expo (of_int 1 * 2 powi (E + 1))) (- 1022) - 52 \<le> E + 1"
      using E by (simp add: 3 [symmetric])
    from rnd_fix_grid [OF this] show ?thesis by (simp add: 3)
  next
    case 4
    have "expo (rnd x) = E + 1"
      unfolding 4 expo_minus by (rule expo_pow2)
    then have "max (expo (of_int (- 1) * 2 powi (E + 1))) (- 1022) - 52 \<le> E + 1"
      using E by (simp add: 4 [symmetric])
    from rnd_fix_grid [OF this] show ?thesis by (simp add: 4)
  qed
qed

lemma rnd_rel_error:
  assumes "2 powi (- 1022) \<le> x"
  shows "\<bar>rnd x - x\<bar> \<le> x / 2 ^ 53"
proof -
  have "(0::rat) < 2 powi (- 1022)" by simp
  with assms have x: "0 < x" by linarith
  have e: "- 1022 \<le> expo x"
    using assms x expo_ge [of "- 1022" x] by simp
  have "ulp x = 2 powi (expo x + (- 52))"
    using e by (simp add: ulp_def max_def)
  also have "\<dots> = 2 powi expo x * 2 powi (- 52)"
    by (rule power_int_add) simp
  also have "\<dots> \<le> x * 2 powi (- 52)"
    using expo_bounds(1) [of x] x by (intro mult_right_mono) simp_all
  finally have "ulp x / 2 \<le> x / 2 ^ 53"
    by (simp add: power_int_minus_divide)
  with rnd_near [of x] show ?thesis by linarith
qed

lemma fl_double: "fl x = Fin y \<Longrightarrow> rnd y = y"
  using fl_Fin_rnd [of x y] by (simp add: rnd_idem)

lemma floor_decrease:
  fixes a b :: rat
  assumes "0 \<le> b" "b + 1 \<le> a"
  shows "nat \<lfloor>b\<rfloor> < nat \<lfloor>a\<rfloor>"
proof -
  have "\<lfloor>b\<rfloor> + 1 \<le> \<lfloor>a\<rfloor>"
    using assms(2) floor_mono [of "b + 1" a] by simp
  moreover have "0 \<le> \<lfloor>b\<rfloor>" using assms(1) by simp
  ultimately show ?thesis by linarith
qed

lemma floor_nat_mono:
  fixes a b :: rat
  assumes "b \<le> a"
  shows "nat \<lfloor>b\<rfloor> \<le> nat \<lfloor>a\<rfloor>"
  using floor_mono [OF assms] by linarith

lemma tiny_le_cent: "2 powi (- 1022) \<le> cent / 4"
proof -
  have "(2::rat) powi (- 1022) \<le> 2 powi (- 9)" by (rule powi_two_mono) simp
  also have "\<dots> \<le> cent / 4" by (simp add: cent_def power_int_minus_divide)
  finally show ?thesis .
qed

lemma rnd_upper:
  assumes "z \<le> w" "cent / 4 \<le> w"
  shows "rnd z \<le> w + w / 2 ^ 53"
proof -
  have "2 powi (- 1022) \<le> w" using tiny_le_cent assms(2) by linarith
  from rnd_rel_error [OF this] have "rnd w \<le> w + w / 2 ^ 53" by (simp add: abs_if split: if_splits)
  with rnd_mono [OF assms(1)] show ?thesis by linarith
qed

lemma rnd_lower:
  assumes "w \<le> z" "cent / 4 \<le> w"
  shows "w - w / 2 ^ 53 \<le> rnd z"
proof -
  have "2 powi (- 1022) \<le> w" using tiny_le_cent assms(2) by linarith
  from rnd_rel_error [OF this] have "w - w / 2 ^ 53 \<le> rnd w" by (simp add: abs_if split: if_splits)
  with rnd_mono [OF assms(1)] show ?thesis by linarith
qed

lemma rnd_lower_neg:
  assumes "- w \<le> z" "cent / 4 \<le> w"
  shows "- (w + w / 2 ^ 53) \<le> rnd z"
proof -
  have "- z \<le> w" using assms(1) by simp
  from rnd_upper [OF this assms(2)] show ?thesis by (simp add: rnd_minus)
qed

lemma round2_bounds:
  assumes "cent \<le> v"
  shows "round2 (Fin v) = PInf \<or>
    (\<exists>a. round2 (Fin v) = Fin a \<and> 3 / 5 * v \<le> a \<and> a \<le> 8 / 5 * v \<and> rnd a = a)"
proof -
  define z where "z = v * 100"
  define r where "r = rnd z"
  have z1: "1 \<le> z" using assms cent_bounds(1) by (simp add: z_def)
  have "2 powi (- 1022) \<le> (1::rat)" by (simp add: power_int_minus_divide)
  with z1 have "2 powi (- 1022) \<le> z" by linarith
  from rnd_rel_error [OF this] have rz: "\<bar>r - z\<bar> \<le> z / 2 ^ 53" by (simp add: r_def)
  have "2 powi 0 \<le> z" using z1 by simp
  then have "2 powi 0 \<le> rnd z" by (rule rnd_ge_pow2) simp
  then have r1: "1 \<le> r" by (simp add: r_def)
  show ?thesis
  proof (cases "2 ^ 1024 \<le> r")
    case True
    then have "fl z = PInf" using z1 by (simp add: fl_def Let_def r_def)
    then show ?thesis by (simp add: round2_def lit_hundred z_def)
  next
    case False
    then have flz: "fl z = Fin r" using r1 by (simp add: r_def fl_Fin)
    define n where "n = \<lfloor>r + 1 / 2\<rfloor>"
    define m :: rat where "m = of_int n"
    have n: "m \<le> r + 1 / 2" "r + 1 / 2 < m + 1"
      using floor_correct [of "r + 1 / 2"] by (simp_all add: n_def m_def)
    from n(2) r1 have "(0::rat) < of_int n" unfolding m_def by linarith
    then have n1: "1 \<le> m" by (simp add: int_one_le_iff_zero_less m_def)
    define q :: rat where "q = m / 100"
    have "2 powi (- 1022) \<le> (1::rat) / 100" by (simp add: power_int_minus_divide)
    with n1 have qlo: "2 powi (- 1022) \<le> q" by (simp add: q_def)
    have "(2::rat) ^ 1020 \<le> 2 powi 1023" using powi_two_mono [of 1020 1023] by simp
    moreover have "q \<le> 2 ^ 1020" using n(1) False by (simp add: q_def)
    ultimately have qhi: "q \<le> 2 powi 1023" by linarith
    from fl_rel_error [OF qlo qhi] obtain a
      where a: "fl q = Fin a" "\<bar>a - q\<bar> \<le> q / 2 ^ 53" "0 < a" by blast
    have p53: "(2::rat) ^ 53 = 9007199254740992" by simp
    have alo: "m / 100 - m / 100 / 9007199254740992 \<le> a"
      and ahi: "a \<le> m / 100 + m / 100 / 9007199254740992"
      using a(2) unfolding q_def p53 by linarith+
    have rlo: "v * 100 - v * 100 / 9007199254740992 \<le> r"
      and rhi: "r \<le> v * 100 + v * 100 / 9007199254740992"
      using rz unfolding z_def p53 by linarith+
    have vpos: "0 < v" using assms cent_bounds(3) by linarith
    have "round2 (Fin v) = Fin a"
      by (simp add: round2_def lit_hundred z_def [symmetric] flz n_def [symmetric]
          m_def [symmetric] q_def [symmetric] a(1))
    moreover have "3 / 5 * v \<le> a"
    proof (cases "3 / 2 \<le> r")
      case True
      with alo rlo n(2) vpos show ?thesis by linarith
    next
      case False
      with alo rlo n1 vpos show ?thesis by linarith
    qed
    moreover have "a \<le> 8 / 5 * v"
      using ahi rhi n(1) r1 vpos by linarith
    moreover have "rnd a = a" using a(1) by (rule fl_double)
    ultimately show ?thesis by blast
  qed
qed

lemma quarter_cents_decrease:
  assumes "cent \<le> b" "b \<le> a / 2"
  shows "nat \<lfloor>4 * b / cent\<rfloor> < nat \<lfloor>4 * a / cent\<rfloor>"
proof (rule floor_decrease)
  show "0 \<le> 4 * b / cent" using assms(1) cent_bounds(3) by simp
  have "4 * b + cent \<le> 4 * a" using assms cent_bounds(3) by linarith
  then have "(4 * b + cent) / cent \<le> 4 * a / cent"
    using cent_bounds(3) by (simp add: divide_right_mono)
  then show "4 * b / cent + 1 \<le> 4 * a / cent"
    using cent_bounds(3) by (simp add: add_divide_distrib)
qed

lemma quarter_cents_mono:
  assumes "b \<le> a"
  shows "nat \<lfloor>4 * b / cent\<rfloor> \<le> nat \<lfloor>4 * a / cent\<rfloor>"
proof (rule floor_nat_mono)
  show "4 * b / cent \<le> 4 * a / cent"
    using assms cent_bounds(3) by (simp add: divide_right_mono)
qed

lemma ratio_decrease:
  fixes x y x' y' :: rat
  assumes "0 < x" "x < y" "3 / 2 * x \<le> x'" "0 \<le> y'" "y' \<le> y"
  shows "nat \<lfloor>4 * y' / x'\<rfloor> < nat \<lfloor>4 * y / x\<rfloor>"
proof (rule floor_decrease)
  have x': "0 < x'" using assms(1,3) by linarith
  show "0 \<le> 4 * y' / x'" using assms(4) x' by simp
  have "y' / x' \<le> y / (3 / 2 * x)"
    using assms by (intro frac_le) simp_all
  also have "\<dots> = 2 / 3 * (y / x)" by simp
  finally have 1: "4 * y' / x' \<le> 8 / 3 * (y / x)" by simp
  have "1 < y / x" using assms(1,2) by simp
  with 1 have "4 * y' / x' + 1 \<le> 4 * (y / x)" by linarith
  then show "4 * y' / x' + 1 \<le> 4 * y / x" by simp
qed

lemma ratio_pos:
  fixes x y :: rat
  assumes "0 < x" "x < y"
  shows "0 < nat \<lfloor>4 * y / x\<rfloor>"
proof -
  have "1 < y / x" using assms by simp
  then have "1 \<le> 4 * y / x" by simp
  then have "1 \<le> \<lfloor>4 * y / x\<rfloor>" by (simp add: le_floor_iff)
  then show ?thesis by simp
qed

lemma dbl_max_less_pow: "dbl_max < 2 ^ 1024"
  using dbl_max_less by simp

lemma dbl_max_pos: "0 < dbl_max"
  by (simp add: dbl_max_def)

lemma cent_le_dbl_max: "cent \<le> dbl_max"
  by (simp add: cent_def dbl_max_def)

lemma pay_double:
  assumes d: "dbl_debt d" and c: "dbl_credit c"
  defines "a \<equiv> round2 (Math_min (Math_abs d) c)"
  defines "d' \<equiv> num_add d a" and "c' \<equiv> num_sub c a"
  shows "dbl_debt d' \<or> num_less (Math_abs d') (lit (1 / 100))"
    and "dbl_credit c' \<or> num_less c' (lit (1 / 100))"
    and "num_less (Math_abs d') (lit (1 / 100)) \<or> num_less c' (lit (1 / 100)) \<or>
         debtor_phase d' < debtor_phase d \<or> (debtor_phase d' = debtor_phase d \<and> stall_measure d' c' < stall_measure d c)"
proof -
  from c obtain y where y: "c = Fin y" "cent \<le> y" "rnd y = y" "y \<le> dbl_max"
    by (cases c) (auto simp: dbl_credit_def)
  define v where "v = (case d of Fin x \<Rightarrow> if y < \<bar>x\<bar> then y else \<bar>x\<bar> | _ \<Rightarrow> y)"
  have m: "Math_min (Math_abs d) c = Fin v"
    using d by (cases d) (auto simp: v_def y(1) dbl_debt_def)
  have v: "cent \<le> v" "v \<le> y"
    using d y(2) by (cases d; auto simp: v_def dbl_debt_def)+
  have p53: "(2::rat) ^ 53 = 9007199254740992" by simp
  have c0: "0 < cent" by (rule cent_bounds(3))
  have goal: "(dbl_debt d' \<or> num_less (Math_abs d') (lit (1 / 100))) \<and>
    (dbl_credit c' \<or> num_less c' (lit (1 / 100))) \<and>
    (num_less (Math_abs d') (lit (1 / 100)) \<or> num_less c' (lit (1 / 100)) \<or>
         debtor_phase d' < debtor_phase d \<or> (debtor_phase d' = debtor_phase d \<and> stall_measure d' c' < stall_measure d c))"
  proof -
    from round2_bounds [OF v(1)] consider (inf) "a = PInf"
      | (fin) av where "a = Fin av" "3 / 5 * v \<le> av" "av \<le> 8 / 5 * v" "rnd av = av"
      unfolding a_def m by blast
    then show ?thesis
    proof cases
      case inf
      have "d' = PInf" using d by (cases d) (simp_all add: d'_def inf dbl_debt_def)
      moreover have "c' = NInf" by (simp add: c'_def inf y(1) num_sub_def)
      ultimately show ?thesis by (simp add: dbl_debt_def lit_cent)
    next
      case fin
      have avpos: "0 < av" using fin(2) v(1) c0 by linarith
      define y' where "y' = rnd (y - av)"
      have y'le: "y' \<le> y"
        using rnd_mono [of "y - av" y] avpos by (simp add: y'_def y(3))
      have "- dbl_max \<le> y - av" using fin(3) v(2) y(2,4) c0 by linarith
      then have y'ge: "- dbl_max \<le> y'" unfolding y'_def by (rule rnd_ge_neg_dbl_max)
      have "fl (y - av) = Fin y'"
        unfolding y'_def using y'le y'ge y(4) dbl_max_less_pow
        by (intro fl_Fin) (simp_all add: y'_def)
      then have c'eq: "c' = Fin y'" by (simp add: c'_def fin(1) y(1) num_sub_def)
      have y'd: "rnd y' = y'" by (simp add: y'_def rnd_idem)
      have g2: "dbl_credit c' \<or> num_less c' (lit (1 / 100))"
        using y'd y'le y(4) by (auto simp: c'eq dbl_credit_def lit_cent)
      have yhalf: "y' \<le> y / 2" if "v = y"
      proof -
        have "y - av \<le> 2 / 5 * y" using fin(2) that by simp
        moreover have "cent / 4 \<le> 2 / 5 * y" using y(2) c0 by simp
        ultimately have "y' \<le> 2 / 5 * y + 2 / 5 * y / 2 ^ 53"
          unfolding y'_def by (rule rnd_upper)
        then show ?thesis using y(2) c0 unfolding p53 by linarith
      qed
      show ?thesis
      proof (cases d)
        case PInf
        have d'eq: "d' = PInf" by (simp add: d'_def PInf fin(1))
        have "v = y" by (simp add: v_def PInf)
        then have h: "y' \<le> y / 2" by (rule yhalf)
        have mu1: "stall_measure d' c' = nat \<lfloor>4 * y' / cent\<rfloor>"
          by (simp add: stall_measure_def d'eq c'eq)
        have mu0: "stall_measure d c = nat \<lfloor>4 * y / cent\<rfloor>"
          by (simp add: stall_measure_def PInf y(1))
        have "num_less c' (lit (1 / 100)) \<or> (debtor_phase d' = debtor_phase d \<and> stall_measure d' c' < stall_measure d c)"
        proof (cases "cent \<le> y'")
          case True
          then have "stall_measure d' c' < stall_measure d c"
            unfolding mu1 mu0 using h by (rule quarter_cents_decrease)
          then show ?thesis by (simp add: d'eq PInf)
        next
          case False
          then show ?thesis by (simp add: c'eq lit_cent)
        qed
        with g2 show ?thesis by (auto simp: d'eq dbl_debt_def)
      next
        case (Fin x)
        from d Fin have x: "cent \<le> \<bar>x\<bar>" "rnd x = x" "- dbl_max \<le> x"
          by (simp_all add: dbl_debt_def)
        define x' where "x' = rnd (x + av)"
        have x'ge: "x \<le> x'"
          using rnd_mono [of x "x + av"] avpos by (simp add: x'_def x(2))
        have x'd: "rnd x' = x'" by (simp add: x'_def rnd_idem)
        have x'lo: "- (2 ^ 1024) < x'" using x'ge x(3) dbl_max_less_pow by linarith
        have d'cases: "d' = (if 2 ^ 1024 \<le> x' then PInf else Fin x')"
          using x'lo by (auto simp: d'_def Fin fin(1) fl_def Let_def x'_def rnd_zero)
        have g1: "dbl_debt d' \<or> num_less (Math_abs d') (lit (1 / 100))"
          using x'd x'ge x(3) by (auto simp: d'cases dbl_debt_def lit_cent)
        have g3: "debtor_phase d' < debtor_phase d \<or> (debtor_phase d' = debtor_phase d \<and> stall_measure d' c' < stall_measure d c)"
          if st1: "\<not> num_less (Math_abs d') (lit (1 / 100))"
            and st2: "\<not> num_less c' (lit (1 / 100))"
        proof -
          from st2 have y'c: "cent \<le> y'" by (simp add: c'eq lit_cent)
          show ?thesis
          proof (cases "0 < x")
            case True
            then have xc: "cent \<le> x" using x(1) by simp
            have x'pos: "0 < x'" using True x'ge by linarith
            have ph0: "debtor_phase d' = debtor_phase d" using True x'pos by (simp add: debtor_phase_def d'cases Fin)
            show ?thesis
            proof (cases "x < y")
              case False
              then have "v = y" by (auto simp: v_def Fin)
              then have h: "y' \<le> y / 2" by (rule yhalf)
              have "\<not> x' < y'" using h False x'ge y(2) c0 by linarith
              then have "stall_measure d' c' = nat \<lfloor>4 * y' / cent\<rfloor>"
                using x'pos by (simp add: stall_measure_def d'cases c'eq)
              moreover have "stall_measure d c = nat \<lfloor>4 * y / cent\<rfloor>"
                using True False by (simp add: stall_measure_def Fin y(1))
              ultimately show ?thesis
                using ph0 quarter_cents_decrease [OF y'c h] by simp
            next
              case xy: True
              then have vx: "v = x" using True by (auto simp: v_def Fin)
              have "8 / 5 * x \<le> x + av" using fin(2) vx by simp
              moreover have "cent / 4 \<le> 8 / 5 * x" using xc c0 by simp
              ultimately have "8 / 5 * x - 8 / 5 * x / 2 ^ 53 \<le> x'"
                unfolding x'_def by (rule rnd_lower)
              then have x'big: "3 / 2 * x \<le> x'" using True unfolding p53 by linarith
              have mu0: "stall_measure d c = nat \<lfloor>4 * y / cent\<rfloor> + nat \<lfloor>4 * y / x\<rfloor>"
                using True xy by (simp add: stall_measure_def Fin y(1))
              have le1: "nat \<lfloor>4 * y' / cent\<rfloor> \<le> nat \<lfloor>4 * y / cent\<rfloor>"
                using y'le by (rule quarter_cents_mono)
              have y'0: "0 \<le> y'" using y'c c0 by linarith
              have "stall_measure d' c' \<le> nat \<lfloor>4 * y' / cent\<rfloor> + nat \<lfloor>4 * y' / x'\<rfloor>"
                using x'pos by (simp add: stall_measure_def d'cases c'eq)
              moreover have "nat \<lfloor>4 * y' / x'\<rfloor> < nat \<lfloor>4 * y / x\<rfloor>"
                using True xy x'big y'0 y'le by (rule ratio_decrease)
              ultimately show ?thesis using ph0 mu0 le1 by linarith
            qed
          next
            case False
            then have xneg: "x < 0" and ax: "\<bar>x\<bar> = - x" using x(1) c0 by (simp_all add: abs_if split: if_splits)
            have xc: "cent \<le> - x" using x(1) ax by simp
            have vle: "v \<le> - x" by (auto simp: v_def Fin ax)
            have "x + av \<le> 3 / 5 * (- x)" using fin(3) vle by simp
            moreover have "cent / 4 \<le> 3 / 5 * (- x)" using xc c0 by simp
            ultimately have "x' \<le> 3 / 5 * (- x) + 3 / 5 * (- x) / 2 ^ 53"
              unfolding x'_def by (rule rnd_upper)
            then have x'up: "x' \<le> 2 / 3 * (- x)" using xc c0 unfolding p53 by linarith
            have "- x \<le> dbl_max" using x(3) by simp
            with x'up xc c0 dbl_max_less_pow have "x' < 2 ^ 1024" by linarith
            then have d'eq: "d' = Fin x'" by (simp add: d'cases)
            from st1 have x'c: "cent \<le> \<bar>x'\<bar>" by (simp add: d'eq lit_cent)
            show ?thesis
            proof (cases "x' < 0")
              case x'neg: True
              have ph1: "debtor_phase d' = debtor_phase d" using xneg x'neg by (simp add: debtor_phase_def d'eq Fin)
              have mu0: "stall_measure d c = nat \<lfloor>4 * (- x) / cent\<rfloor> + nat \<lfloor>4 * y / cent\<rfloor>"
                using xneg by (simp add: stall_measure_def Fin y(1))
              have mu1: "stall_measure d' c' = nat \<lfloor>4 * (- x') / cent\<rfloor> + nat \<lfloor>4 * y' / cent\<rfloor>"
                using x'neg by (simp add: stall_measure_def d'eq c'eq)
              have le1: "nat \<lfloor>4 * y' / cent\<rfloor> \<le> nat \<lfloor>4 * y / cent\<rfloor>"
                using y'le by (rule quarter_cents_mono)
              have le2: "nat \<lfloor>4 * (- x') / cent\<rfloor> \<le> nat \<lfloor>4 * (- x) / cent\<rfloor>"
                using x'ge by (intro quarter_cents_mono) simp
              have x'c': "cent \<le> - x'" using x'c x'neg by simp
              show ?thesis
              proof (cases "y < - x")
                case True
                then have "v = y" by (simp add: v_def Fin ax)
                then have h: "y' \<le> y / 2" by (rule yhalf)
                from quarter_cents_decrease [OF y'c h] ph1 mu0 mu1 le2 show ?thesis by linarith
              next
                case False
                then have vx: "v = - x" by (simp add: v_def Fin ax)
                have "- (2 / 5 * (- x)) \<le> x + av" using fin(2) vx by simp
                moreover have "cent / 4 \<le> 2 / 5 * (- x)" using xc c0 by simp
                ultimately have "- (2 / 5 * (- x) + 2 / 5 * (- x) / 2 ^ 53) \<le> x'"
                  unfolding x'_def by (rule rnd_lower_neg)
                then have h: "- x' \<le> (- x) / 2" using xc c0 unfolding p53 by linarith
                from quarter_cents_decrease [OF x'c' h] ph1 mu0 mu1 le1 show ?thesis by linarith
              qed
            next
              case False
              then have "debtor_phase d' = 0" by (simp add: debtor_phase_def d'eq)
              moreover have "debtor_phase d = 1" using xneg by (simp add: debtor_phase_def Fin)
              ultimately show ?thesis by simp
            qed
          qed
        qed
        from g1 g2 g3 show ?thesis by blast
      next
        case NInf
        with d show ?thesis by (simp add: dbl_debt_def)
      next
        case NaN
        with d show ?thesis by (simp add: dbl_debt_def)
      qed
    qed
  qed
  from goal show "dbl_debt d' \<or> num_less (Math_abs d') (lit (1 / 100))"
    and "dbl_credit c' \<or> num_less c' (lit (1 / 100))"
    and "num_less (Math_abs d') (lit (1 / 100)) \<or> num_less c' (lit (1 / 100)) \<or>
         debtor_phase d' < debtor_phase d \<or> (debtor_phase d' = debtor_phase d \<and> stall_measure d' c' < stall_measure d c)"
    by blast+
qed

lemma wf_progress: "wf progress"
  unfolding progress_def by (intro wf_inv_image wf_lex_prod wf_less_than)

lemma match_loop_wf:
  assumes wf: "wf R"
    and step: "\<And>u. I u \<Longrightarrow> loop_cond u \<Longrightarrow> I (loop_body u) \<and> (loop_body u, u) \<in> R"
    and init: "I s"
  shows "\<exists>t. match_loop s = Some t"
  using wf init
proof (induction s rule: wf_induct_rule)
  case (less s)
  show ?case
  proof (cases "loop_cond s")
    case False
    then show ?thesis by (simp add: match_loop.simps)
  next
    case True
    from step [OF less.prems True] less.IH [of "loop_body s"]
    obtain t where "match_loop (loop_body s) = Some t" by blast
    with True show ?thesis by (simp add: match_loop.simps [of s])
  qed
qed

lemma double_step:
  assumes ok: "cursors_ok dbl_debt dbl_credit s" and lc: "loop_cond s"
  shows "cursors_ok dbl_debt dbl_credit (loop_body s)" and "(loop_body s, s) \<in> progress"
proof -
  note cur = cursors_ok_current [OF ok lc]
  have p1: "dbl_debt (new_debt s) \<or> num_less (Math_abs (new_debt s)) (lit (1 / 100))"
    unfolding new_debt_def cur_transfer_def transfer_def by (rule pay_double(1) [OF cur])
  have p2: "dbl_credit (new_credit s) \<or> num_less (new_credit s) (lit (1 / 100))"
    unfolding new_credit_def cur_transfer_def transfer_def by (rule pay_double(2) [OF cur])
  have p3: "num_less (Math_abs (new_debt s)) (lit (1 / 100)) \<or>
      num_less (new_credit s) (lit (1 / 100)) \<or>
      debtor_phase (new_debt s) < debtor_phase (amount (cur_debtor s)) \<or>
      (debtor_phase (new_debt s) = debtor_phase (amount (cur_debtor s)) \<and>
       stall_measure (new_debt s) (new_credit s) < stall_measure (amount (cur_debtor s)) (amount (cur_creditor s)))"
    unfolding new_debt_def new_credit_def cur_transfer_def transfer_def
    by (rule pay_double(3) [OF cur])
  show "cursors_ok dbl_debt dbl_credit (loop_body s)"
    using ok lc p1 p2 by (rule cursors_ok_step)
  have i: "cur_i s < length (debtors s)" and j: "cur_j s < length (creditors s)"
    using lc by (simp_all add: loop_cond_def)
  show "(loop_body s, s) \<in> progress"
  proof (cases "num_less (Math_abs (new_debt s)) (lit (1 / 100)) \<or>
      num_less (new_credit s) (lit (1 / 100))")
    case True
    then have "cursors_left (loop_body s) < cursors_left s"
      using i j by (auto simp: cursors_left_def loop_body_fields)
    then show ?thesis by (simp add: progress_def)
  next
    case False
    then have same: "cur_i (loop_body s) = cur_i s" "cur_j (loop_body s) = cur_j s"
      by (simp_all add: loop_body_fields)
    have left: "cursors_left (loop_body s) = cursors_left s"
      by (simp add: cursors_left_def same) (simp add: loop_body_fields)
    have nd: "amount (cur_debtor (loop_body s)) = new_debt s"
      unfolding cur_debtor_def same using i by (simp add: loop_body_fields)
    have nc: "amount (cur_creditor (loop_body s)) = new_credit s"
      unfolding cur_creditor_def same using j by (simp add: loop_body_fields)
    from p3 False show ?thesis
      by (auto simp: progress_def left nd nc)
  qed
qed

lemma double_debtor: "finite_double a \<Longrightarrow> is_debtor (p, a) \<Longrightarrow> dbl_debt a"
  by (cases a) (auto simp: finite_double_def is_debtor_def dbl_debt_def lit_cent)

lemma double_creditor: "finite_double a \<Longrightarrow> is_creditor (p, a) \<Longrightarrow> dbl_credit a"
  by (cases a) (auto simp: finite_double_def is_creditor_def dbl_credit_def lit_cent)

text \<open>
  C9. The engine is total on its input domain: for every mapping from participants to
  finite binary64 amounts it returns a sequence of settlements. (The model has no
  operation that can raise: every array access of the loop is guarded by the loop test.)
\<close>

theorem simplifyDebts_total:
  assumes "\<forall>(p, a) \<in> set bal. finite_double a"
  shows "\<exists>ss. simplifyDebts bal = Some ss"
proof -
  have "cursors_ok dbl_debt dbl_credit (initial_state bal)"
    using assms by (intro cursors_ok_initial) (fastforce intro: double_debtor double_creditor)+
  then have "\<exists>t. match_loop (initial_state bal) = Some t"
    using match_loop_wf [OF wf_progress, of "cursors_ok dbl_debt dbl_credit" "initial_state bal"]
      double_step by blast
  then show ?thesis by (auto simp: simplifyDebts_def)
qed

theorem simplifyDebts_total_witness:
  "finite_double (Fin (- 30)) \<and> finite_double (Fin 10) \<and> finite_double (Fin 20) \<and>
   simplifyDebts [(''A'', Fin (- 30)), (''B'', Fin 10), (''C'', Fin 20)] =
     Some [\<lparr>sfrom = ''A'', sto = ''C'', samount = Fin 20, currency = ''USD''\<rparr>,
           \<lparr>sfrom = ''A'', sto = ''B'', samount = Fin 10, currency = ''USD''\<rparr>]"
proof -
  have d: "rnd (- 30) = - 30" "rnd 10 = 10" "rnd 20 = 20"
    by (simp_all add: rnd_def ulp_def expo_def round_even_def compute_bitlen Let_def
        floor_rat_numeral_div floor_rat_one_div floor_rat_neg_numeral_div)
  have f: "\<forall>(p, a) \<in> set [(''A'', Fin (- 30)), (''B'', Fin 10), (''C'', Fin 20)].
             finite_double a"
    by (simp add: finite_double_def d dbl_max_def)
  from simplifyDebts_total [OF f] obtain ss
    where "simplifyDebts [(''A'', Fin (- 30)), (''B'', Fin 10), (''C'', Fin 20)] = Some ss"
    by blast
  have r: "simplifyDebts [(''A'', Fin (- 30)), (''B'', Fin 10), (''C'', Fin 20)] =
     Some [\<lparr>sfrom = ''A'', sto = ''C'', samount = Fin 20, currency = ''USD''\<rparr>,
           \<lparr>sfrom = ''A'', sto = ''B'', samount = Fin 10, currency = ''USD''\<rparr>]"
    by (simp add: loop_eval num_eval)
  from f r show ?thesis by simp
qed

end
